theory Spec2Isabelle
  imports Main "HOL-Library.Char_ord" "HOL-Library.List_Lexorder" "HOL-Library.Multiset"
begin

section \<open>The tabular data modifier pipeline\<close>

text \<open>
  A shallow embedding of the data modifiers of the Highcharts data layer
  (\<^verbatim>\<open>ChainModifier.ts\<close>, \<^verbatim>\<open>InvertModifier.ts\<close>, and the sort, range and group
  modifiers), with the table store they consume.
\<close>

subsection \<open>Events\<close>

text \<open>
  \<^verbatim>\<open>emit\<close> calls are recorded as a trace: the event type and, for the chain's
  modifier events, the modifier the event carries. No listener is registered in the
  model, so emitting has no other effect.
\<close>

datatype event_type =
  Execute | AfterExecute | ExecuteModifier | AfterExecuteModifier
  | RemoveModifier | AfterRemoveModifier

datatype 'm event = Event (event_kind: event_type) (event_modifier: "'m option")

subsection \<open>Arrays\<close>

text \<open>
  \<^verbatim>\<open>Array.prototype.indexOf\<close>: the first index holding the value, or \<open>-1\<close>. This one
  is for arrays of strings and of object references, where strict equality is equality.
\<close>

fun indexOf_from :: "'a list \<Rightarrow> 'a \<Rightarrow> int \<Rightarrow> int" where
  "indexOf_from [] x i = -1"
| "indexOf_from (y # ys) x i = (if y = x then i else indexOf_from ys x (i + 1))"

definition indexOf :: "'a list \<Rightarrow> 'a \<Rightarrow> int" where
  "indexOf xs x = indexOf_from xs x 0"

text \<open>
  \<^verbatim>\<open>Array.prototype.splice(start, deleteCount)\<close> with no inserted items: a negative
  \<open>start\<close> counts from the end of the array (and is clamped to 0), a \<open>start\<close>
  beyond the end is clamped to the length, and at most the remaining elements are deleted.
\<close>

definition splice :: "'a list \<Rightarrow> int \<Rightarrow> nat \<Rightarrow> 'a list" where
  "splice xs start deleteCount =
     (let len = int (length xs);
          actualStart = (if start < 0 then max (len + start) 0 else min start len);
          k = nat actualStart
      in take k xs @ drop (k + deleteCount) xs)"

subsection \<open>Cells and tables\<close>

text \<open>
  A cell is a boolean, a number, a string, \<^verbatim>\<open>undefined\<close> or a nested table. A number
  is an integer or \<^verbatim>\<open>NaN\<close>. The table class itself (\<^verbatim>\<open>DataTable\<close>) is not among the
  source files; a table is modelled as the ordered collection of its named columns.
\<close>

datatype cell =
  CUndef | CBool bool | CNum int | CNaN | CStr string | CTable "(string \<times> cell list) list"

type_synonym column = "cell list"
type_synonym row = "cell list"
type_synonym table = "(string \<times> column) list"

subsection \<open>JavaScript operators on cells\<close>

text \<open>
  Truthiness: \<^verbatim>\<open>undefined\<close>, \<^verbatim>\<open>false\<close>, \<open>0\<close>, \<^verbatim>\<open>NaN\<close> and the empty string are
  falsy.
\<close>

fun truthy :: "cell \<Rightarrow> bool" where
  "truthy CUndef = False"
| "truthy (CBool b) = b"
| "truthy (CNum n) = (n \<noteq> 0)"
| "truthy CNaN = False"
| "truthy (CStr s) = (s \<noteq> [])"
| "truthy (CTable t) = True"

text \<open>The expression \<^verbatim>\<open>(a || 0)\<close>.\<close>

definition or_zero :: "cell \<Rightarrow> cell" where
  "or_zero a = (if truthy a then a else CNum 0)"

datatype js_type = TUndefined | TBoolean | TNumber | TString | TObject

fun typeof :: "cell \<Rightarrow> js_type" where
  "typeof CUndef = TUndefined"
| "typeof (CBool b) = TBoolean"
| "typeof (CNum n) = TNumber"
| "typeof CNaN = TNumber"
| "typeof (CStr s) = TString"
| "typeof (CTable t) = TObject"

text \<open>
  The relational operators follow ECMAScript's abstract relational comparison. An object
  without its own \<^verbatim>\<open>valueOf\<close> or \<^verbatim>\<open>toString\<close> is converted to the string
  \<^verbatim>\<open>[object Object]\<close>; two strings are compared as strings, by code units; otherwise
  both operands are converted to numbers, and the comparison is undefined (\<open>None\<close>)
  when one of them is \<^verbatim>\<open>NaN\<close>. The conversion of a string to a number is the
  parameter \<open>sn\<close> (\<open>None\<close> for \<^verbatim>\<open>NaN\<close>).
\<close>

fun ToPrimitive :: "cell \<Rightarrow> cell" where
  "ToPrimitive (CTable t) = CStr ''[object Object]''"
| "ToPrimitive c = c"

fun ToNumber :: "(string \<Rightarrow> int option) \<Rightarrow> cell \<Rightarrow> int option" where
  "ToNumber sn CUndef = None"
| "ToNumber sn (CBool b) = Some (if b then 1 else 0)"
| "ToNumber sn (CNum n) = Some n"
| "ToNumber sn CNaN = None"
| "ToNumber sn (CStr s) = sn s"
| "ToNumber sn (CTable t) = None"

fun less_primitive :: "(string \<Rightarrow> int option) \<Rightarrow> cell \<Rightarrow> cell \<Rightarrow> bool option" where
  "less_primitive sn (CStr x) (CStr y) = Some (x < y)"
| "less_primitive sn a b =
     (case ToNumber sn a of
        None \<Rightarrow> None
      | Some x \<Rightarrow> (case ToNumber sn b of None \<Rightarrow> None | Some y \<Rightarrow> Some (x < y)))"

definition js_less :: "(string \<Rightarrow> int option) \<Rightarrow> cell \<Rightarrow> cell \<Rightarrow> bool option" where
  "js_less sn a b = less_primitive sn (ToPrimitive a) (ToPrimitive b)"

text \<open>\<^verbatim>\<open>a < b\<close>, \<^verbatim>\<open>a > b\<close>, \<^verbatim>\<open>a <= b\<close> and \<^verbatim>\<open>a >= b\<close>.\<close>

definition js_lt :: "(string \<Rightarrow> int option) \<Rightarrow> cell \<Rightarrow> cell \<Rightarrow> bool" where
  "js_lt sn a b = (js_less sn a b = Some True)"

definition js_gt :: "(string \<Rightarrow> int option) \<Rightarrow> cell \<Rightarrow> cell \<Rightarrow> bool" where
  "js_gt sn a b = (js_less sn b a = Some True)"






text \<open>
  A string-to-number conversion for the concrete examples: the empty string is \<open>0\<close>,
  a string of decimal digits is its value, and every other string is \<^verbatim>\<open>NaN\<close>. It
  agrees with JavaScript on the strings the examples use.
\<close>

definition digit_of :: "char \<Rightarrow> nat option" where
  "digit_of c = (let k = (of_char c :: nat) in if 48 \<le> k \<and> k \<le> 57 then Some (k - 48) else None)"

fun digits_value :: "string \<Rightarrow> nat \<Rightarrow> nat option" where
  "digits_value [] acc = Some acc"
| "digits_value (c # cs) acc =
     (case digit_of c of None \<Rightarrow> None | Some d \<Rightarrow> digits_value cs (10 * acc + d))"

definition StringToNumber :: "string \<Rightarrow> int option" where
  "StringToNumber s = map_option int (digits_value s 0)"

text \<open>
  \<^verbatim>\<open>Array.prototype.sort(compare)\<close> is a built-in that ECMAScript requires to be
  stable. It is modelled as the stable insertion sort: an element is placed before the
  first element it does not compare greater than.
\<close>

fun js_insort :: "('a \<Rightarrow> 'a \<Rightarrow> int) \<Rightarrow> 'a \<Rightarrow> 'a list \<Rightarrow> 'a list" where
  "js_insort compare x [] = [x]"
| "js_insort compare x (y # ys) =
     (if compare x y \<le> 0 then x # y # ys else y # js_insort compare x ys)"

definition Array_sort :: "('a \<Rightarrow> 'a \<Rightarrow> int) \<Rightarrow> 'a list \<Rightarrow> 'a list" where
  "Array_sort compare xs = foldr (js_insort compare) xs []"

text \<open>An array read \<^verbatim>\<open>xs[i]\<close> and an array write \<^verbatim>\<open>xs[i] = v\<close>.\<close>

definition cellAt :: "cell list \<Rightarrow> nat \<Rightarrow> cell" where
  "cellAt xs i = (if i < length xs then xs ! i else CUndef)"

definition writeAt :: "cell list \<Rightarrow> nat \<Rightarrow> cell \<Rightarrow> cell list" where
  "writeAt xs i v =
     (if i < length xs then xs[i := v] else xs @ replicate (i - length xs) CUndef @ [v])"

subsection \<open>The table store\<close>

text \<open>
  Modelled from the spec: the class \<^verbatim>\<open>DataTable\<close> is not among the source files. The
  spec describes a table as a mapping from column name to an ordered sequence of cells,
  all columns of one length, the row count; rows are the cross-section at an index. The
  operations below are the part of its contract that the modifiers call. Columns keep
  the order in which they were added.
\<close>

definition getColumnNames :: "table \<Rightarrow> string list" where
  "getColumnNames t = map fst t"

definition getColumn :: "table \<Rightarrow> string \<Rightarrow> column option" where
  "getColumn t name = map_of t name"

definition getRowCount :: "table \<Rightarrow> nat" where
  "getRowCount t = foldr (\<lambda>c n. max (length (snd c)) n) t 0"

definition rowAt :: "table \<Rightarrow> nat \<Rightarrow> row" where
  "rowAt t i = map (\<lambda>c. cellAt (snd c) i) t"

definition getRow :: "table \<Rightarrow> nat \<Rightarrow> row option" where
  "getRow t i = (if i < getRowCount t then Some (rowAt t i) else None)"

definition getRows :: "table \<Rightarrow> row list" where
  "getRows t = map (rowAt t) [0..<getRowCount t]"


definition hasColumns :: "table \<Rightarrow> string list \<Rightarrow> bool" where
  "hasColumns t names = list_all (\<lambda>n. n \<in> set (getColumnNames t)) names"

fun setColumn :: "string \<Rightarrow> column \<Rightarrow> table \<Rightarrow> table" where
  "setColumn name col [] = [(name, col)]"
| "setColumn name col (c # t) =
     (if fst c = name then (name, col) # t else c # setColumn name col t)"

definition setColumns :: "(string \<times> column) list \<Rightarrow> table \<Rightarrow> table" where
  "setColumns cols t = fold (\<lambda>c. setColumn (fst c) (snd c)) cols t"

definition deleteColumns :: "string list \<Rightarrow> table \<Rightarrow> table" where
  "deleteColumns names t = filter (\<lambda>c. fst c \<notin> set names) t"


text \<open>A row given as an array is written to the columns in their order.\<close>

definition setRow :: "row \<Rightarrow> nat \<Rightarrow> table \<Rightarrow> table" where
  "setRow r i t =
     map (\<lambda>k. (fst (t ! k), writeAt (snd (t ! k)) i (cellAt r k))) [0..<length t]"

fun setRows :: "row list \<Rightarrow> nat \<Rightarrow> table \<Rightarrow> table" where
  "setRows [] i t = t"
| "setRows (r # rs) i t = setRows rs (Suc i) (setRow r i t)"

text \<open>A cell is written to the named column, which is created when the table lacks it.\<close>

definition setCell :: "nat \<Rightarrow> string \<Rightarrow> cell \<Rightarrow> table \<Rightarrow> table" where
  "setCell i name v t =
     (case map_of t name of
        Some col \<Rightarrow> setColumn name (writeAt col i v) t
      | None \<Rightarrow> setColumn name (writeAt (replicate (getRowCount t) CUndef) i v) t)"

text \<open>The invariant of the spec: column names are unique and all columns have one length.\<close>

definition wf_table :: "table \<Rightarrow> bool" where
  "wf_table t = (distinct (map fst t) \<and> list_all (\<lambda>c. length (snd c) = getRowCount t) t)"

subsection \<open>SortModifier\<close>

datatype direction = Asc | Desc

record SortModifier_Options =
  sort_modifier :: string
  direction :: direction
  orderByColumn :: string
  orderInColumn :: "string option"

definition SortModifier_defaultOptions :: SortModifier_Options where
  "SortModifier_defaultOptions =
     \<lparr>sort_modifier = ''Order'', direction = Desc, orderByColumn = ''y'',
      orderInColumn = None\<rparr>"

definition ascending :: "(string \<Rightarrow> int option) \<Rightarrow> cell \<Rightarrow> cell \<Rightarrow> int" where
  "ascending sn a b =
     (if js_lt sn (or_zero a) (or_zero b) then -1
      else if js_gt sn (or_zero a) (or_zero b) then 1
      else 0)"

definition descending :: "(string \<Rightarrow> int option) \<Rightarrow> cell \<Rightarrow> cell \<Rightarrow> int" where
  "descending sn a b =
     (if js_lt sn (or_zero b) (or_zero a) then -1
      else if js_gt sn (or_zero b) (or_zero a) then 1
      else 0)"

text \<open>The comparator \<^verbatim>\<open>modify\<close> selects: \<^verbatim>\<open>direction === 'asc' ? ascending : descending\<close>.\<close>

definition sort_compare :: "(string \<Rightarrow> int option) \<Rightarrow> direction \<Rightarrow> cell \<Rightarrow> cell \<Rightarrow> int" where
  "sort_compare sn d = (if d = Asc then ascending sn else descending sn)"

text \<open>
  The test \<^verbatim>\<open>if (orderInColumn)\<close> on an optional string: it holds for a string that
  is present and not empty.
\<close>

definition truthy_name :: "string option \<Rightarrow> string option" where
  "truthy_name n = (case n of None \<Rightarrow> None | Some name \<Rightarrow> if name = [] then None else Some name)"

text \<open>
  \<^verbatim>\<open>SortModifier.modify\<close>. A row reference \<^verbatim>\<open>{index, row}\<close> is the pair of the
  row's index and the row.
\<close>

definition SortModifier_modify ::
  "(string \<Rightarrow> int option) \<Rightarrow> SortModifier_Options \<Rightarrow> table \<Rightarrow> table \<times> unit event list" where
  "SortModifier_modify sn opts t =
     (let compare = sort_compare sn (direction opts);
          columnNames = getColumnNames t;
          orderByColumnIndex = indexOf columnNames (orderByColumn opts);
          rowReferences = zip [0..<length (getRows t)] (getRows t);
          rowsLength = length rowReferences;
          sortedReferences =
            (if orderByColumnIndex \<noteq> -1
             then Array_sort (\<lambda>a b. compare (cellAt (snd a) (nat orderByColumnIndex))
                                            (cellAt (snd b) (nat orderByColumnIndex)))
                    rowReferences
             else rowReferences);
          t' =
            (case truthy_name (orderInColumn opts) of
               Some name \<Rightarrow>
                 fold (\<lambda>i. setCell (fst (sortedReferences ! i)) name (CNum (int i)))
                   [0..<rowsLength] t
             | None \<Rightarrow>
                 fold (\<lambda>i. setRows [snd (sortedReferences ! i)] i) [0..<rowsLength] t)
      in (t', [Event Execute None, Event AfterExecute None]))"

text \<open>
  A comparator is consistent on a list of cells when ``not greater than'' is transitive
  on them.
\<close>

definition consistent_on :: "(cell \<Rightarrow> cell \<Rightarrow> int) \<Rightarrow> cell list \<Rightarrow> bool" where
  "consistent_on compare cells =
     list_all (\<lambda>a. list_all (\<lambda>b. list_all (\<lambda>c.
       compare a b \<le> 0 \<longrightarrow> compare b c \<le> 0 \<longrightarrow> compare a c \<le> 0) cells) cells) cells"

text \<open>
  Cells that the comparators read as numbers: \<^verbatim>\<open>undefined\<close> and \<^verbatim>\<open>NaN\<close> (as \<open>0\<close>),
  booleans and numbers, with the number each stands for.
\<close>

fun numeric_key :: "cell \<Rightarrow> int" where
  "numeric_key (CBool b) = (if b then 1 else 0)"
| "numeric_key (CNum n) = n"
| "numeric_key c = 0"

definition numeric_cell :: "cell \<Rightarrow> bool" where
  "numeric_cell c = (typeof c = TUndefined \<or> typeof c = TBoolean \<or> typeof c = TNumber)"

subsection \<open>ChainModifier\<close>

text \<open>
  The chain holds its child modifiers by reference: \<open>'m\<close> is the type of references.
  A child's own \<^verbatim>\<open>modify\<close> is reached by dynamic dispatch, the parameter \<open>run\<close>,
  which may change the state \<open>'s\<close> of the child objects.
\<close>

record ChainModifier_Options =
  chain_modifier :: string
  reverse :: bool

definition ChainModifier_defaultOptions :: ChainModifier_Options where
  "ChainModifier_defaultOptions = \<lparr>chain_modifier = ''Chain'', reverse = False\<rparr>"

record 'm ChainModifier =
  modifiers :: "'m list"
  options :: ChainModifier_Options

text \<open>
  The constructor \<^verbatim>\<open>new ChainModifier(options, ...modifiers)\<close>, for options that give
  every field.
\<close>

definition ChainModifier_new :: "ChainModifier_Options \<Rightarrow> 'm list \<Rightarrow> 'm ChainModifier" where
  "ChainModifier_new opts ms = \<lparr>modifiers = ms, options = opts\<rparr>"

text \<open>The loop of \<^verbatim>\<open>ChainModifier.modify\<close> over the array \<^verbatim>\<open>modifiers\<close>.\<close>

fun executeModifiers ::
  "('m \<Rightarrow> 's \<Rightarrow> table \<Rightarrow> table \<times> 's) \<Rightarrow> 'm list \<Rightarrow> 's \<Rightarrow> table \<Rightarrow> 'm event list
    \<Rightarrow> table \<times> 's \<times> 'm event list" where
  "executeModifiers run [] s t ev = (t, s, ev)"
| "executeModifiers run (m # ms) s t ev =
     (case run m s t of (t', s') \<Rightarrow>
        executeModifiers run ms s' t'
          (ev @ [Event ExecuteModifier (Some m), Event AfterExecuteModifier (Some m)]))"

text \<open>
  \<^verbatim>\<open>ChainModifier.modify\<close>. \<^verbatim>\<open>this.modifiers.reverse()\<close> reverses the stored array
  in place and returns that same array; \<^verbatim>\<open>this.modifiers.slice()\<close> is a copy. The
  result is the table, the chain after the call, the state of the children and the
  events emitted.
\<close>

definition ChainModifier_modify ::
  "('m \<Rightarrow> 's \<Rightarrow> table \<Rightarrow> table \<times> 's) \<Rightarrow> 'm ChainModifier \<Rightarrow> 's \<Rightarrow> table
    \<Rightarrow> table \<times> 'm ChainModifier \<times> 's \<times> 'm event list" where
  "ChainModifier_modify run c s t =
     (let c' = (if reverse (options c) then c\<lparr>modifiers := rev (modifiers c)\<rparr> else c);
          ms = modifiers c'
      in case executeModifiers run ms s t [Event Execute None] of
           (t', s', ev) \<Rightarrow> (t', c', s', ev @ [Event AfterExecute None]))"

text \<open>\<^verbatim>\<open>ChainModifier.remove\<close>.\<close>

definition ChainModifier_remove ::
  "'m \<Rightarrow> 'm ChainModifier \<Rightarrow> 'm ChainModifier \<times> 'm event list" where
  "ChainModifier_remove m c =
     (c\<lparr>modifiers := splice (modifiers c) (indexOf (modifiers c) m) 1\<rparr>,
      [Event RemoveModifier (Some m), Event AfterRemoveModifier (Some m)])"

text \<open>The modifiers a call of \<^verbatim>\<open>modify\<close> executed, in order, read off its events.\<close>

fun executed :: "'m event list \<Rightarrow> 'm list" where
  "executed [] = []"
| "executed (Event k (Some m) # es) =
     (if k = ExecuteModifier then m # executed es else executed es)"
| "executed (Event k None # es) = executed es"

subsection \<open>RangeModifier\<close>

text \<open>
  A range \<^verbatim>\<open>{column, minValue, maxValue}\<close>. The bounds are declared as booleans,
  numbers or strings; they are cells here.
\<close>

record RangeOptions =
  column :: string
  maxValue :: cell
  minValue :: cell

record RangeModifier_Options =
  range_modifier :: string
  strict :: bool
  ranges :: "RangeOptions list"

definition RangeModifier_defaultOptions :: RangeModifier_Options where
  "RangeModifier_defaultOptions = \<lparr>range_modifier = ''Range'', strict = False, ranges = []\<rparr>"









subsection \<open>GroupModifier\<close>

record GroupModifier_Options =
  group_modifier :: string
  groupColumn :: string
  invalidValues :: "cell list option"
  validValues :: "cell list option"










definition first_seen :: "'a list \<Rightarrow> 'a list" where
  "first_seen xs = rev (remdups (rev xs))"





subsection \<open>InvertModifier\<close>

text \<open>
  The template string \<^verbatim>\<open>`${i}`\<close> of an index, and \<^verbatim>\<open>`${column}`\<close> of a cell. An integer
  is printed by its decimal digits, as JS prints the integers below \<open>10\<^sup>2\<^sup>1\<close>.
\<close>

fun string_of_nat :: "nat \<Rightarrow> string" where
  "string_of_nat n =
     (if n < 10 then [char_of (48 + n)]
      else string_of_nat (n div 10) @ [char_of (48 + n mod 10)])"

declare string_of_nat.simps [simp del]

fun cell_to_string :: "cell \<Rightarrow> string" where
  "cell_to_string CUndef = ''undefined''"
| "cell_to_string (CBool b) = (if b then ''true'' else ''false'')"
| "cell_to_string (CNum n) =
     (if n < 0 then CHR ''-'' # string_of_nat (nat (- n)) else string_of_nat (nat n))"
| "cell_to_string CNaN = ''NaN''"
| "cell_to_string (CStr s) = s"
| "cell_to_string (CTable t) = ''[object Object]''"

text \<open>The array read \<^verbatim>\<open>columnNames[i]\<close> used as a property name.\<close>

definition nameAt :: "string list \<Rightarrow> nat \<Rightarrow> string" where
  "nameAt names i = (if i < length names then names ! i else ''undefined'')"

text \<open>
  An object lists its own properties with the array indices first, in ascending order,
  and then the other keys in the order in which they were added. An array index is the
  canonical decimal string of an integer below \<open>2\<^sup>3\<^sup>2 - 1\<close>. An object is modelled
  as the list of its properties in the order in which they were added, where the
  assignment \<^verbatim>\<open>columns[name] = row\<close> is \<open>setColumn\<close>; \<open>properties\<close> is the order in
  which the object is enumerated.
\<close>

definition array_index :: "string \<Rightarrow> nat option" where
  "array_index s =
     (case digits_value s 0 of
        None \<Rightarrow> None
      | Some n \<Rightarrow> if s = string_of_nat n \<and> int n < 4294967295 then Some n else None)"

definition properties :: "(string \<times> 'a) list \<Rightarrow> (string \<times> 'a) list" where
  "properties obj =
     sort_key (\<lambda>p. case array_index (fst p) of Some n \<Rightarrow> n | None \<Rightarrow> 0)
       (filter (\<lambda>p. array_index (fst p) \<noteq> None) obj) @
     filter (\<lambda>p. array_index (fst p) = None) obj"

text \<open>
  \<^verbatim>\<open>InvertModifier.modify\<close>. The collection \<^verbatim>\<open>columns\<close> is an object, built property by
  property, and \<^verbatim>\<open>setColumns\<close> takes its properties in the order in which the object
  lists them. \<^verbatim>\<open>deleteColumns()\<close> without names deletes every column.
\<close>

definition InvertModifier_modify :: "table \<Rightarrow> table" where
  "InvertModifier_modify t =
     (if hasColumns t [''columnNames'']
      then (let columnNames =
                  map cell_to_string
                    (case getColumn t ''columnNames'' of Some c \<Rightarrow> c | None \<Rightarrow> []);
                t1 = deleteColumns [''columnNames''] t;
                columns =
                  fold (\<lambda>i columns. case getRow t1 i of
                                        Some r \<Rightarrow> setColumn (nameAt columnNames i) r columns
                                      | None \<Rightarrow> columns)
                    [0..<getRowCount t1] []
            in setColumns (properties columns) [])
      else (let columns =
                  fold (\<lambda>i columns. case getRow t i of
                                        Some r \<Rightarrow> setColumn (string_of_nat i) r columns
                                      | None \<Rightarrow> columns)
                    [0..<getRowCount t] [];
                columns' = setColumn ''columnNames'' (map CStr (getColumnNames t)) columns
            in setColumns (properties columns') []))"

subsection \<open>Serialization\<close>

record InvertModifier_Options =
  invert_modifier :: string

definition InvertModifier_defaultOptions :: InvertModifier_Options where
  "InvertModifier_defaultOptions = \<lparr>invert_modifier = ''InvertModifier''\<rparr>"

record SeriesPointsModifier_Options =
  series_points_modifier :: string
  aliasMap :: "(string \<times> string) list option"

definition SeriesPointsModifier_defaultOptions :: SeriesPointsModifier_Options where
  "SeriesPointsModifier_defaultOptions =
     \<lparr>series_points_modifier = ''SeriesPoints'', aliasMap = None\<rparr>"

text \<open>
  A modifier instance, by value: its kind with its options, and for a chain its child
  modifiers. The constructors \<^verbatim>\<open>new X(options)\<close> merge the given options over the
  defaults; the options of a class JSON give every field, so they are the options of the
  new instance.
\<close>

datatype modifier =
  Sort SortModifier_Options
  | Range RangeModifier_Options
  | Group GroupModifier_Options
  | Invert InvertModifier_Options
  | SeriesPoints SeriesPointsModifier_Options
  | Chain ChainModifier_Options "modifier list"

datatype modifier_options =
  SortOptions SortModifier_Options
  | RangeModifierOptions RangeModifier_Options
  | GroupOptions GroupModifier_Options
  | InvertOptions InvertModifier_Options
  | SeriesPointsOptions SeriesPointsModifier_Options
  | ChainOptions ChainModifier_Options

text \<open>
  A class JSON \<^verbatim>\<open>{$class, options}\<close>; a chain's has the property \<^verbatim>\<open>modifiers\<close> too.
\<close>

datatype class_json =
  ClassJSON (json_class: string) (json_options: modifier_options)
    (json_modifiers: "class_json list option")

text \<open>The methods \<^verbatim>\<open>toJSON\<close> of the six classes.\<close>

fun toJSON :: "modifier \<Rightarrow> class_json" where
  "toJSON (Sort opts) = ClassJSON ''SortModifier'' (SortOptions opts) None"
| "toJSON (Range opts) = ClassJSON ''RangeModifier'' (RangeModifierOptions opts) None"
| "toJSON (Group opts) = ClassJSON ''GroupModifier'' (GroupOptions opts) None"
| "toJSON (Invert opts) = ClassJSON ''InvertModifier'' (InvertOptions opts) None"
| "toJSON (SeriesPoints opts) =
     ClassJSON ''SeriesPointsModifier'' (SeriesPointsOptions opts) None"
| "toJSON (Chain opts ms) = ClassJSON ''ChainModifier'' (ChainOptions opts) (Some (map toJSON ms))"

text \<open>
  The classes that the source files register with \<^verbatim>\<open>DataJSON.addClass\<close>. The file of
  the sort modifier has no such call, and the class has no \<^verbatim>\<open>fromJSON\<close>.
\<close>

definition registered_classes :: "string list" where
  "registered_classes =
     [''ChainModifier'', ''GroupModifier'', ''InvertModifier'', ''RangeModifier'',
      ''SeriesPointsModifier'']"

text \<open>
  Modelled from the spec: \<^verbatim>\<open>DataJSON.fromJSON\<close> is not among the source files. The spec
  says that deserialization looks the class up by the discriminator and that an unknown
  discriminator gives no instance. The registered class's static \<^verbatim>\<open>fromJSON\<close> is then
  called; a JSON whose options are not those of its class is outside the declared types
  and gives no instance here. \<^verbatim>\<open>ChainModifier.fromJSON\<close> converts the child JSONs
  in order and drops those that give no instance.
\<close>

fun DataJSON_fromJSON :: "class_json \<Rightarrow> modifier option"
  and fromJSON_modifiers :: "class_json list \<Rightarrow> modifier list" where
  "DataJSON_fromJSON (ClassJSON cls opts children) =
     (if cls \<notin> set registered_classes then None
      else if cls = ''ChainModifier''
      then (case opts of
              ChainOptions x \<Rightarrow>
                Some (Chain x (case children of
                                 Some js \<Rightarrow> fromJSON_modifiers js
                               | None \<Rightarrow> []))
            | _ \<Rightarrow> None)
      else if cls = ''GroupModifier''
      then (case opts of GroupOptions x \<Rightarrow> Some (Group x) | _ \<Rightarrow> None)
      else if cls = ''InvertModifier''
      then (case opts of InvertOptions x \<Rightarrow> Some (Invert x) | _ \<Rightarrow> None)
      else if cls = ''RangeModifier''
      then (case opts of RangeModifierOptions x \<Rightarrow> Some (Range x) | _ \<Rightarrow> None)
      else (case opts of SeriesPointsOptions x \<Rightarrow> Some (SeriesPoints x) | _ \<Rightarrow> None))"
| "fromJSON_modifiers [] = []"
| "fromJSON_modifiers (j # js) =
     (case DataJSON_fromJSON j of
        Some m \<Rightarrow> m # fromJSON_modifiers js
      | None \<Rightarrow> fromJSON_modifiers js)"

text \<open>A modifier that neither is nor contains a sort modifier.\<close>

fun sort_free :: "modifier \<Rightarrow> bool" where
  "sort_free (Sort opts) = False"
| "sort_free (Chain opts ms) = list_all sort_free ms"
| "sort_free m = True"

section \<open>Properties\<close>

subsection \<open>Chain\<close>

lemma executed_append: "executed (xs @ ys) = executed xs @ executed ys"
  by (induction xs rule: executed.induct) auto

lemma executeModifiers_events:
  "executed (snd (snd (executeModifiers run ms s t ev))) = executed ev @ ms"
  by (induction ms arbitrary: s t ev) (auto simp: executed_append split: prod.splits)

lemma executeModifiers_foldl:
  "executeModifiers run ms s t ev =
     (fst (foldl (\<lambda>p m. run m (snd p) (fst p)) (t, s) ms),
      snd (foldl (\<lambda>p m. run m (snd p) (fst p)) (t, s) ms),
      ev @ concat (map (\<lambda>m. [Event ExecuteModifier (Some m),
                                 Event AfterExecuteModifier (Some m)]) ms))"
  by (induction ms arbitrary: s t ev) (auto split: prod.splits)

lemma indexOf_from_notin: "x \<notin> set xs \<Longrightarrow> indexOf_from xs x i = -1"
  by (induction xs arbitrary: i) auto

lemma indexOf_from_in:
  "x \<in> set xs \<Longrightarrow>
     \<exists>k < length xs. indexOf_from xs x i = i + int k \<and> xs ! k = x \<and> x \<notin> set (take k xs)"
proof (induction xs arbitrary: i)
  case Nil
  then show ?case by simp
next
  case (Cons y ys)
  show ?case
  proof (cases "y = x")
    case True
    then show ?thesis by (intro exI[of _ 0]) simp
  next
    case False
    with Cons.prems have "x \<in> set ys" by simp
    from Cons.IH[OF this, of "i + 1"] obtain k where
      k: "k < length ys" "indexOf_from ys x (i + 1) = i + 1 + int k" "ys ! k = x"
         "x \<notin> set (take k ys)" by blast
    with False show ?thesis by (intro exI[of _ "Suc k"]) auto
  qed
qed

lemma remove1_take_drop:
  "k < length xs \<Longrightarrow> xs ! k = x \<Longrightarrow> x \<notin> set (take k xs) \<Longrightarrow>
     remove1 x xs = take k xs @ drop (Suc k) xs"
proof (induction xs arbitrary: k)
  case Nil
  then show ?case by simp
next
  case (Cons y ys)
  then show ?case by (cases k) auto
qed

lemma splice_indexOf_in:
  "x \<in> set xs \<Longrightarrow> splice xs (indexOf xs x) 1 = remove1 x xs"
proof -
  assume "x \<in> set xs"
  from indexOf_from_in[OF this, of 0] obtain k where
    k: "k < length xs" "indexOf xs x = int k" "xs ! k = x" "x \<notin> set (take k xs)"
    by (auto simp: indexOf_def)
  then show ?thesis by (simp add: splice_def remove1_take_drop)
qed

lemma splice_indexOf_notin:
  "x \<notin> set xs \<Longrightarrow> splice xs (indexOf xs x) 1 = butlast xs"
proof -
  assume "x \<notin> set xs"
  then have i: "indexOf xs x = -1" by (simp add: indexOf_def indexOf_from_notin)
  show ?thesis
  proof (cases "xs = []")
    case True
    then show ?thesis by (simp add: splice_def i)
  next
    case False
    then have "nat (max (int (length xs) + - 1) 0) = length xs - 1" by (cases xs) auto
    then show ?thesis using False by (simp add: splice_def i butlast_conv_take)
  qed
qed

lemma ChainModifier_modify_table:
  "fst (ChainModifier_modify run c s t) =
     fst (foldl (\<lambda>p m. run m (snd p) (fst p)) (t, s)
            (if reverse (options c) then rev (modifiers c) else modifiers c))"
  by (simp add: ChainModifier_modify_def executeModifiers_foldl Let_def)

lemma ChainModifier_modify_state:
  "fst (snd (snd (ChainModifier_modify run c s t))) =
     snd (foldl (\<lambda>p m. run m (snd p) (fst p)) (t, s)
            (if reverse (options c) then rev (modifiers c) else modifiers c))"
  by (simp add: ChainModifier_modify_def executeModifiers_foldl Let_def)

lemma ChainModifier_modify_chain:
  "fst (snd (ChainModifier_modify run c s t)) =
     (if reverse (options c) then c\<lparr>modifiers := rev (modifiers c)\<rparr> else c)"
  by (simp add: ChainModifier_modify_def executeModifiers_foldl Let_def)

lemma ChainModifier_modify_executed:
  "executed (snd (snd (snd (ChainModifier_modify run c s t)))) =
     (if reverse (options c) then rev (modifiers c) else modifiers c)"
proof -
  have "executed (concat (map (\<lambda>m. [Event ExecuteModifier (Some m),
          Event AfterExecuteModifier (Some m)]) ms)) = ms" for ms :: "'a list"
    by (induction ms) auto
  then show ?thesis
    by (simp add: ChainModifier_modify_def executeModifiers_foldl Let_def executed_append)
qed

text \<open>
  Claim C1. \<^verbatim>\<open>ChainModifier.modify\<close> should leave the chain's stored sequence in the
  order it had before the call. With \<^verbatim>\<open>reverse: true\<close> it does not: on the chain
  \<open>[1, 2]\<close> the stored sequence is \<open>[2, 1]\<close> after the call, the first call executes
  \<open>2\<close> then \<open>1\<close>, and a second call on the same chain executes \<open>1\<close> then \<open>2\<close>.
\<close>

theorem C1_modify_reverse_reorders_stored_sequence:
  "(let c = ChainModifier_new (ChainModifier_defaultOptions\<lparr>reverse := True\<rparr>) [1::nat, 2];
        r1 = ChainModifier_modify run c s t;
        r2 = ChainModifier_modify run (fst (snd r1)) (fst (snd (snd r1))) (fst r1)
    in modifiers (fst (snd r1)) = [2, 1] \<and>
       executed (snd (snd (snd r1))) = [2, 1] \<and>
       executed (snd (snd (snd r2))) = [1, 2])"
  by (simp add: Let_def ChainModifier_modify_chain ChainModifier_modify_executed
      ChainModifier_new_def ChainModifier_defaultOptions_def)

text \<open>
  Claim C4. For modifiers \<open>A\<close> and \<open>B\<close> and every table, the chain \<open>[A, B]\<close> returns
  the table that \<open>B.modify(A.modify(T))\<close> returns (and leaves the children in the same
  state), and the chain \<open>[A, B]\<close> with \<^verbatim>\<open>reverse: true\<close> returns the table that the
  chain \<open>[B, A]\<close> with \<^verbatim>\<open>reverse: false\<close> returns.
\<close>

theorem C4_chain_composition:
  "fst (ChainModifier_modify run (ChainModifier_new ChainModifier_defaultOptions [A, B]) s t) =
     fst (run B (snd (run A s t)) (fst (run A s t))) \<and>
   fst (snd (snd (ChainModifier_modify run (ChainModifier_new ChainModifier_defaultOptions [A, B]) s t))) =
     snd (run B (snd (run A s t)) (fst (run A s t))) \<and>
   fst (ChainModifier_modify run (ChainModifier_new (ChainModifier_defaultOptions\<lparr>reverse := True\<rparr>) [A, B]) s t) =
     fst (ChainModifier_modify run (ChainModifier_new ChainModifier_defaultOptions [B, A]) s t) \<and>
   fst (snd (snd (ChainModifier_modify run (ChainModifier_new (ChainModifier_defaultOptions\<lparr>reverse := True\<rparr>) [A, B]) s t))) =
     fst (snd (snd (ChainModifier_modify run (ChainModifier_new ChainModifier_defaultOptions [B, A]) s t)))"
  by (simp add: ChainModifier_modify_table ChainModifier_modify_state
      ChainModifier_new_def ChainModifier_defaultOptions_def)

text \<open>
  Claim C9. \<^verbatim>\<open>ChainModifier.remove(m)\<close> should delete the first occurrence of \<open>m\<close> and
  leave the sequence unchanged when \<open>m\<close> does not occur. When \<open>m\<close> does not occur,
  \<^verbatim>\<open>indexOf\<close> is \<open>-1\<close> and \<^verbatim>\<open>splice(-1, 1)\<close> deletes the last element: removing
  \<open>3\<close> from the chain \<open>[1, 2]\<close> leaves \<open>[1]\<close>.
\<close>

theorem C9_remove_absent_deletes_last:
  "modifiers (fst (ChainModifier_remove (3::nat) (ChainModifier_new ChainModifier_defaultOptions [1, 2]))) = [1]"
  by (simp add: ChainModifier_remove_def splice_def indexOf_def ChainModifier_new_def)

subsection \<open>Tables\<close>

lemma getRowCount_Nil [simp]: "getRowCount [] = 0"
  by (simp add: getRowCount_def)

lemma getRowCount_Cons: "getRowCount (c # t) = max (length (snd c)) (getRowCount t)"
  by (simp add: getRowCount_def)

lemma getRowCount_uniform:
  "t \<noteq> [] \<Longrightarrow> \<forall>c\<in>set t. length (snd c) = n \<Longrightarrow> getRowCount t = n"
proof (induction t)
  case Nil
  then show ?case by simp
next
  case (Cons c t)
  then show ?case by (cases "t = []") (auto simp: getRowCount_Cons)
qed

lemma wf_table_length:
  "wf_table t \<Longrightarrow> c \<in> set t \<Longrightarrow> length (snd c) = getRowCount t"
  by (auto simp: wf_table_def list_all_iff)

lemma wf_table_nth:
  "wf_table t \<Longrightarrow> k < length t \<Longrightarrow> length (snd (t ! k)) = getRowCount t"
  by (simp add: wf_table_length)

lemma length_getRows [simp]: "length (getRows t) = getRowCount t"
  by (simp add: getRows_def)

lemma length_rowAt [simp]: "length (rowAt t i) = length t"
  by (simp add: rowAt_def)

lemma nth_getRows: "i < getRowCount t \<Longrightarrow> getRows t ! i = rowAt t i"
  by (simp add: getRows_def)

lemma length_setRow [simp]: "length (setRow r i t) = length t"
  by (simp add: setRow_def)

lemma getColumnNames_setRow [simp]: "getColumnNames (setRow r i t) = getColumnNames t"
  unfolding setRow_def getColumnNames_def by (rule nth_equalityI) simp_all

lemma setRow_column_length:
  "wf_table t \<Longrightarrow> i < getRowCount t \<Longrightarrow> c \<in> set (setRow r i t) \<Longrightarrow> length (snd c) = getRowCount t"
  by (auto simp: setRow_def writeAt_def wf_table_nth)

lemma getRowCount_setRow:
  assumes "wf_table t" "i < getRowCount t"
  shows "getRowCount (setRow r i t) = getRowCount t"
proof -
  from assms(2) have "t \<noteq> []" by auto
  then have "setRow r i t \<noteq> []" by (simp add: setRow_def)
  then show ?thesis
    using setRow_column_length[OF assms] by (intro getRowCount_uniform) auto
qed

lemma wf_table_setRow:
  assumes "wf_table t" "i < getRowCount t"
  shows "wf_table (setRow r i t)"
proof -
  have "map fst (setRow r i t) = map fst t"
    using getColumnNames_setRow[of r i t] by (simp add: getColumnNames_def)
  then show ?thesis
    using assms setRow_column_length[OF assms]
    by (auto simp: wf_table_def list_all_iff getRowCount_setRow)
qed

lemma rowAt_setRow:
  assumes "wf_table t" "i < getRowCount t" "length r = length t"
  shows "rowAt (setRow r i t) j = (if j = i then r else rowAt t j)"
proof (rule nth_equalityI)
  show "length (rowAt (setRow r i t) j) = length (if j = i then r else rowAt t j)"
    using assms by simp
next
  fix k assume "k < length (rowAt (setRow r i t) j)"
  then have k: "k < length t" by simp
  then have "length (snd (t ! k)) = getRowCount t" using assms(1) by (simp add: wf_table_nth)
  with k assms show "rowAt (setRow r i t) j ! k = (if j = i then r else rowAt t j) ! k"
    by (auto simp: rowAt_def setRow_def writeAt_def cellAt_def)
qed

lemma getRows_setRow:
  assumes "wf_table t" "i < getRowCount t" "length r = length t"
  shows "getRows (setRow r i t) = (getRows t)[i := r]"
proof (rule nth_equalityI)
  show "length (getRows (setRow r i t)) = length ((getRows t)[i := r])"
    using assms by (simp add: getRowCount_setRow)
next
  fix j assume "j < length (getRows (setRow r i t))"
  then have "j < getRowCount t" using assms by (simp add: getRowCount_setRow)
  then show "getRows (setRow r i t) ! j = (getRows t)[i := r] ! j"
    using assms by (simp add: getRowCount_setRow nth_getRows rowAt_setRow nth_list_update)
qed

lemma setRow_rowAt_same:
  assumes "wf_table t" "i < getRowCount t"
  shows "setRow (rowAt t i) i t = t"
proof (rule nth_equalityI)
  show "length (setRow (rowAt t i) i t) = length t" by simp
next
  fix k assume "k < length (setRow (rowAt t i) i t)"
  then have k: "k < length t" by simp
  then have "length (snd (t ! k)) = getRowCount t" using assms(1) by (simp add: wf_table_nth)
  with k assms show "setRow (rowAt t i) i t ! k = t ! k"
    by (auto simp: rowAt_def setRow_def writeAt_def cellAt_def)
qed

text \<open>The loop of mode A\<close>

lemma sort_write_rows:
  assumes "wf_table t" "k \<le> getRowCount t" "\<forall>i<k. length (f i) = length t"
  shows "wf_table (fold (\<lambda>i. setRow (f i) i) [0..<k] t) \<and>
         getRowCount (fold (\<lambda>i. setRow (f i) i) [0..<k] t) = getRowCount t \<and>
         getColumnNames (fold (\<lambda>i. setRow (f i) i) [0..<k] t) = getColumnNames t \<and>
         getRows (fold (\<lambda>i. setRow (f i) i) [0..<k] t) = map f [0..<k] @ drop k (getRows t)"
  using assms(2,3)
proof (induction k)
  case 0
  then show ?case using assms(1) by simp
next
  case (Suc k)
  define u where "u = fold (\<lambda>i. setRow (f i) i) [0..<k] t"
  from Suc have IH: "wf_table u" "getRowCount u = getRowCount t"
    "getColumnNames u = getColumnNames t" "getRows u = map f [0..<k] @ drop k (getRows t)"
    unfolding u_def by auto
  have step: "fold (\<lambda>i. setRow (f i) i) [0..<Suc k] t = setRow (f k) k u"
    unfolding u_def by simp
  have len: "length u = length t"
    using IH(3) by (metis getColumnNames_def length_map)
  have k: "k < getRowCount u" using Suc.prems IH(2) by simp
  have r: "length (f k) = length u" using Suc.prems len by simp
  have kl: "k < length (getRows t)" using Suc.prems by simp
  have d: "drop k (getRows t) = getRows t ! k # drop (Suc k) (getRows t)"
    using kl by (simp add: Cons_nth_drop_Suc)
  have upd: "(map f [0..<k] @ drop k (getRows t))[k := f k] =
      map f [0..<Suc k] @ drop (Suc k) (getRows t)"
    by (simp add: list_update_append d)
  show ?case
    unfolding step
    using wf_table_setRow[OF IH(1) k] getRowCount_setRow[OF IH(1) k, of "f k"]
      getRows_setRow[OF IH(1) k r] IH upd
    by simp
qed

lemma setRows_single: "setRows [r] i t = setRow r i t"
  by simp

lemma map_of_setColumn:
  "map_of (setColumn name col t) name' = (if name' = name then Some col else map_of t name')"
  by (induction t) auto

lemma names_setColumn:
  "map fst (setColumn name col t) =
     (if name \<in> set (map fst t) then map fst t else map fst t @ [name])"
  by (induction t) auto

lemma map_of_setCell_other:
  "name' \<noteq> name \<Longrightarrow> map_of (setCell i name v t) name' = map_of t name'"
  by (simp add: setCell_def map_of_setColumn split: option.splits)

lemma map_of_setCell_same:
  "map_of (setCell i name v t) name =
     Some (writeAt (case map_of t name of Some col \<Rightarrow> col
                    | None \<Rightarrow> replicate (getRowCount t) CUndef) i v)"
  by (simp add: setCell_def map_of_setColumn split: option.splits)

lemma names_setCell:
  "map fst (setCell i name v t) =
     (if name \<in> set (map fst t) then map fst t else map fst t @ [name])"
  by (auto simp: setCell_def names_setColumn split: option.splits)

lemma setCell_loop_other:
  "name' \<noteq> name \<Longrightarrow>
     map_of (fold (\<lambda>i. setCell (p i) name (v i)) xs t) name' = map_of t name'"
  by (induction xs arbitrary: t) (auto simp: map_of_setCell_other)

lemma setCell_loop_same_aux:
  "map_of t name = Some col \<Longrightarrow>
     map_of (fold (\<lambda>i. setCell (p i) name (v i)) xs t) name =
       Some (fold (\<lambda>i c. writeAt c (p i) (v i)) xs col)"
  by (induction xs arbitrary: t col) (auto simp: map_of_setCell_same)

lemma setCell_loop_same:
  assumes "xs \<noteq> []"
  shows "map_of (fold (\<lambda>i. setCell (p i) name (v i)) xs t) name =
       Some (fold (\<lambda>i c. writeAt c (p i) (v i)) xs
               (case map_of t name of Some col \<Rightarrow> col
                | None \<Rightarrow> replicate (getRowCount t) CUndef))"
proof -
  from assms obtain x xs' where xs: "xs = x # xs'" by (cases xs) auto
  show ?thesis
    unfolding xs
    using setCell_loop_same_aux[OF map_of_setCell_same, of p name v xs' "p x" "v x" t]
    by simp
qed

lemma setCell_loop_names:
  "xs \<noteq> [] \<Longrightarrow>
     map fst (fold (\<lambda>i. setCell (p i) name (v i)) xs t) =
       (if name \<in> set (map fst t) then map fst t else map fst t @ [name])"
proof (induction xs arbitrary: t)
  case Nil
  then show ?case by simp
next
  case (Cons x xs)
  show ?case
  proof (cases "xs = []")
    case True
    then show ?thesis by (simp add: names_setCell)
  next
    case False
    from Cons.IH[OF False, of "setCell (p x) name (v x) t"]
    show ?thesis by (auto simp: names_setCell)
  qed
qed

lemma writeAt_loop_length:
  "\<forall>i\<in>set xs. p i < length col \<Longrightarrow>
     length (fold (\<lambda>i c. writeAt c (p i) (v i)) xs col) = length col"
  by (induction xs arbitrary: col) (auto simp: writeAt_def)

lemma writeAt_loop_nth:
  "\<forall>i\<in>set xs. p i < length col \<Longrightarrow> distinct (map p xs) \<Longrightarrow> q \<in> set xs \<Longrightarrow>
     fold (\<lambda>i c. writeAt c (p i) (v i)) xs col ! p q = v q"
proof (induction xs arbitrary: col rule: rev_induct)
  case Nil
  then show ?case by simp
next
  case (snoc x xs)
  have len: "length (fold (\<lambda>i c. writeAt c (p i) (v i)) xs col) = length col"
    using snoc.prems(1) by (intro writeAt_loop_length) simp
  show ?case
  proof (cases "q = x")
    case True
    then show ?thesis using snoc.prems(1) len by (simp add: writeAt_def)
  next
    case False
    with snoc.prems have q: "q \<in> set xs" and ne: "p x \<noteq> p q" by auto
    from snoc.IH[OF _ _ q] snoc.prems have "fold (\<lambda>i c. writeAt c (p i) (v i)) xs col ! p q = v q"
      by simp
    with ne snoc.prems(1) len show ?thesis by (simp add: writeAt_def)
  qed
qed

lemma writeAt_loop_untouched:
  "\<forall>i\<in>set xs. p i < length col \<Longrightarrow> j \<notin> p ` set xs \<Longrightarrow>
     fold (\<lambda>i c. writeAt c (p i) (v i)) xs col ! j = col ! j"
  by (induction xs arbitrary: col) (auto simp: writeAt_def)

lemma indexOf_column:
  assumes "wf_table t" "getColumn t name = Some col"
  shows "\<exists>k<length t. indexOf (getColumnNames t) name = int k \<and> t ! k = (name, col)"
proof -
  from assms(2) have mem: "(name, col) \<in> set t" by (simp add: getColumn_def map_of_SomeD)
  then have "name \<in> set (getColumnNames t)" by (force simp: getColumnNames_def)
  from indexOf_from_in[OF this, of 0] obtain k where
    k: "k < length t" "indexOf (getColumnNames t) name = int k" "getColumnNames t ! k = name"
    by (auto simp: indexOf_def getColumnNames_def)
  then have "fst (t ! k) = name" by (simp add: getColumnNames_def)
  then have "(name, snd (t ! k)) \<in> set t" using k(1) by (metis nth_mem prod.collapse)
  with mem assms(1) have "snd (t ! k) = col"
    by (metis map_of_eq_Some_iff option.inject wf_table_def)
  with \<open>fst (t ! k) = name\<close> k show ?thesis by (intro exI[of _ k]) (auto simp: prod_eq_iff)
qed

lemma indexOf_absent: "name \<notin> set (getColumnNames t) \<Longrightarrow> indexOf (getColumnNames t) name = -1"
  by (simp add: indexOf_def indexOf_from_notin)

lemma cellAt_rowAt: "k < length t \<Longrightarrow> cellAt (rowAt t i) k = cellAt (snd (t ! k)) i"
  by (simp add: cellAt_def rowAt_def)

lemma write_rows_identity:
  assumes "wf_table t"
  shows "k \<le> getRowCount t \<Longrightarrow> fold (\<lambda>i. setRow (rowAt t i) i) [0..<k] t = t"
  by (induction k) (auto simp: setRow_rowAt_same[OF assms])

subsection \<open>Comparators and sorting\<close>

lemma less_primitive_asym:
  "less_primitive sn a b = Some True \<Longrightarrow> less_primitive sn b a \<noteq> Some True"
  by (cases a; cases b) (auto split: option.splits)

lemma js_lt_asym: "js_lt sn a b \<Longrightarrow> \<not> js_lt sn b a"
  unfolding js_lt_def js_less_def by (rule less_primitive_asym)

lemma ascending_antisym: "ascending sn a b = - ascending sn b a"
  using js_lt_asym[of sn "or_zero a" "or_zero b"]
  by (auto simp: ascending_def js_gt_def js_lt_def)

lemma descending_ascending: "descending sn a b = ascending sn b a"
  by (simp add: descending_def ascending_def js_gt_def js_lt_def)

lemma descending_antisym: "descending sn a b = - descending sn b a"
  by (simp add: descending_ascending ascending_antisym[of sn b a])

lemma mset_js_insort: "mset (js_insort c x ys) = add_mset x (mset ys)"
  by (induction ys) auto

lemma mset_Array_sort: "mset (Array_sort c xs) = mset xs"
  by (induction xs) (auto simp: Array_sort_def mset_js_insort)

lemma set_js_insort: "set (js_insort c x ys) = insert x (set ys)"
  by (induction ys) auto

lemma set_Array_sort: "set (Array_sort c xs) = set xs"
  using mset_Array_sort[of c xs] by (metis set_mset_mset)

lemma length_Array_sort: "length (Array_sort c xs) = length xs"
  using mset_Array_sort[of c xs] by (metis size_mset)

lemma Array_sort_Cons: "Array_sort c (x # xs) = js_insort c x (Array_sort c xs)"
  by (simp add: Array_sort_def)

text \<open>sortedness for a comparator that is antisymmetric and transitive on the elements\<close>

lemma sorted_js_insort:
  assumes anti: "\<And>a b. c a b = - c b a"
    and trans: "\<And>a b d. a \<in> S \<Longrightarrow> b \<in> S \<Longrightarrow> d \<in> S \<Longrightarrow> c a b \<le> 0 \<Longrightarrow> c b d \<le> 0 \<Longrightarrow> c a d \<le> 0"
  shows "sorted_wrt (\<lambda>a b. c a b \<le> 0) ys \<Longrightarrow> x \<in> S \<Longrightarrow> set ys \<subseteq> S \<Longrightarrow>
         sorted_wrt (\<lambda>a b. c a b \<le> 0) (js_insort c x ys)"
proof (induction ys)
  case Nil
  then show ?case by simp
next
  case (Cons y ys)
  show ?case
  proof (cases "c x y \<le> 0")
    case True
    have "c x z \<le> 0" if "z \<in> set ys" for z
    proof -
      from Cons.prems(1) that have "c y z \<le> 0" by simp
      with True trans[of x y z] Cons.prems that show ?thesis by auto
    qed
    with True Cons.prems show ?thesis by simp
  next
    case False
    then have "c y x \<le> 0" using anti[of y x] by simp
    with False Cons show ?thesis by (auto simp: set_js_insort)
  qed
qed

lemma sorted_Array_sort:
  assumes anti: "\<And>a b. c a b = - c b a"
    and trans: "\<And>a b d. a \<in> S \<Longrightarrow> b \<in> S \<Longrightarrow> d \<in> S \<Longrightarrow> c a b \<le> 0 \<Longrightarrow> c b d \<le> 0 \<Longrightarrow> c a d \<le> 0"
  shows "set xs \<subseteq> S \<Longrightarrow> sorted_wrt (\<lambda>a b. c a b \<le> 0) (Array_sort c xs)"
proof (induction xs)
  case Nil
  then show ?case by (simp add: Array_sort_def)
next
  case (Cons x xs)
  then show ?case
    using sorted_js_insort[of c S "Array_sort c xs" x, OF anti trans]
    by (simp add: Array_sort_Cons set_Array_sort)
qed

text \<open>stability: an element is only moved behind elements it compares greater than\<close>

lemma stable_js_insort:
  "sorted_wrt (\<lambda>a b. fst a < fst b \<or> c b a > 0) ys \<Longrightarrow> \<forall>y\<in>set ys. fst x < fst y \<Longrightarrow>
     sorted_wrt (\<lambda>a b. (fst a :: nat) < fst b \<or> c b a > (0::int)) (js_insort c x ys)"
  by (induction ys) (auto simp: set_js_insort)

lemma stable_Array_sort:
  "sorted_wrt (\<lambda>a b. fst a < fst b) xs \<Longrightarrow>
     sorted_wrt (\<lambda>a b. (fst a :: nat) < fst b \<or> c b a > (0::int)) (Array_sort c xs)"
proof (induction xs)
  case Nil
  then show ?case by (simp add: Array_sort_def)
next
  case (Cons x xs)
  then show ?case
    using stable_js_insort[of c "Array_sort c xs" x]
    by (simp add: Array_sort_Cons set_Array_sort)
qed

lemma Array_sort_all_equal:
  "\<forall>a\<in>set xs. \<forall>b\<in>set xs. c a b \<le> 0 \<Longrightarrow> Array_sort c xs = xs"
proof (induction xs)
  case Nil
  then show ?case by (simp add: Array_sort_def)
next
  case (Cons x xs)
  then have "Array_sort c xs = xs" by simp
  with Cons.prems show ?case by (cases xs) (auto simp: Array_sort_Cons)
qed

subsection \<open>SortModifier\<close>

lemma setRows_single_fun: "setRows [r] i = setRow r i"
  by (rule ext) simp

lemma sort_compare_antisym: "sort_compare sn d a b = - sort_compare sn d b a"
  using ascending_antisym[of sn a b] descending_antisym[of sn a b]
  by (simp add: sort_compare_def)

lemma SortModifier_modify_found:
  assumes "indexOf (getColumnNames t) (orderByColumn opts) = int k"
  shows "fst (SortModifier_modify sn opts t) =
    (let s = Array_sort (\<lambda>a b. sort_compare sn (direction opts) (cellAt (snd a) k) (cellAt (snd b) k))
               (zip [0..<getRowCount t] (getRows t))
     in case truthy_name (orderInColumn opts) of
          Some name \<Rightarrow> fold (\<lambda>i. setCell (fst (s ! i)) name (CNum (int i))) [0..<getRowCount t] t
        | None \<Rightarrow> fold (\<lambda>i. setRow (snd (s ! i)) i) [0..<getRowCount t] t)"
  using assms by (simp add: SortModifier_modify_def Let_def setRows_single_fun split: option.splits)

lemma SortModifier_modify_absent:
  assumes "orderByColumn opts \<notin> set (getColumnNames t)"
  shows "fst (SortModifier_modify sn opts t) =
    (case truthy_name (orderInColumn opts) of
          Some name \<Rightarrow> fold (\<lambda>i. setCell i name (CNum (int i))) [0..<getRowCount t] t
        | None \<Rightarrow> fold (\<lambda>i. setRow (rowAt t i) i) [0..<getRowCount t] t)"
proof -
  have a: "fold (\<lambda>i. setCell (fst (zip [0..<n] rs ! i)) name (CNum (int i))) [0..<n] t =
        fold (\<lambda>i. setCell i name (CNum (int i))) [0..<n] t" if "length rs = n" for name n rs
    using that by (intro fold_cong) auto
  have b: "fold (\<lambda>i. setRow (snd (zip [0..<getRowCount t] (getRows t) ! i)) i) [0..<getRowCount t] t =
        fold (\<lambda>i. setRow (rowAt t i) i) [0..<getRowCount t] t"
    by (intro fold_cong) (auto simp: nth_getRows)
  show ?thesis
    using indexOf_absent[OF assms] a[of "getRows t" "getRowCount t"] b
    by (simp add: SortModifier_modify_def Let_def setRows_single_fun split: option.splits)
qed

lemma SortModifier_modify_events:
  "snd (SortModifier_modify sn opts t) = [Event Execute None, Event AfterExecute None]"
  by (simp add: SortModifier_modify_def Let_def)

text \<open>facts about the sorted references\<close>

lemma row_reference_mem:
  "a \<in> set (zip [0..<getRowCount t] (getRows t)) \<Longrightarrow>
     fst a < getRowCount t \<and> snd a = getRows t ! fst a"
  by (auto simp: set_zip)

lemma row_reference_key:
  assumes wf: "wf_table t" and k: "k < length t" and col: "snd (t ! k) = col"
    and a: "a \<in> set (zip [0..<getRowCount t] (getRows t))"
  shows "cellAt (snd a) k = col ! fst a" and "cellAt (snd a) k \<in> set col"
proof -
  have len: "length col = getRowCount t" using wf k col by (auto simp: wf_table_nth)
  have refs: "fst a < getRowCount t \<and> snd a = getRows t ! fst a"
    using a by (rule row_reference_mem)
  then have "cellAt (snd a) k = cellAt (rowAt t (fst a)) k" by (simp add: nth_getRows)
  also have "\<dots> = cellAt col (fst a)" using k col by (simp add: cellAt_rowAt)
  also have "\<dots> = col ! fst a" using refs len by (simp add: cellAt_def)
  finally show "cellAt (snd a) k = col ! fst a" .
  then show "cellAt (snd a) k \<in> set col" using refs len by simp
qed

lemma sorted_references_perm:
  "mset (map fst (Array_sort c (zip [0..<length rs] rs))) = mset [0..<length rs]"
proof -
  have "mset (Array_sort c (zip [0..<length rs] rs)) = mset (zip [0..<length rs] rs)"
    by (rule mset_Array_sort)
  then have "mset (map fst (Array_sort c (zip [0..<length rs] rs))) =
      mset (map fst (zip [0..<length rs] rs))"
    by (metis mset_map)
  then show ?thesis by simp
qed

lemma sorted_references_rows:
  "map snd (Array_sort c (zip [0..<getRowCount t] (getRows t))) =
     map (\<lambda>i. getRows t ! i) (map fst (Array_sort c (zip [0..<getRowCount t] (getRows t))))"
proof -
  let ?s = "Array_sort c (zip [0..<getRowCount t] (getRows t))"
  have "map snd ?s = map (\<lambda>a. getRows t ! fst a) ?s"
  proof (rule map_cong[OF refl])
    fix a assume "a \<in> set ?s"
    then have "a \<in> set (zip [0..<getRowCount t] (getRows t))" by (simp add: set_Array_sort)
    then show "snd a = getRows t ! fst a" using row_reference_mem by blast
  qed
  then show ?thesis by (simp add: comp_def)
qed

lemma sorted_references_ordered:
  assumes wf: "wf_table t" and k: "k < length t" and col: "snd (t ! k) = col"
    and cons: "consistent_on cmp col" and anti: "\<And>a b. cmp a b = - cmp b a"
  shows "sorted_wrt (\<lambda>i j. cmp (col ! i) (col ! j) \<le> 0)
           (map fst (Array_sort (\<lambda>a b. cmp (cellAt (snd a) k) (cellAt (snd b) k))
                      (zip [0..<getRowCount t] (getRows t))))"
proof -
  let ?refs = "zip [0..<getRowCount t] (getRows t)"
  let ?c = "\<lambda>a b. cmp (cellAt (snd a) k) (cellAt (snd b) k)"
  have all: "\<forall>x\<in>set col. \<forall>y\<in>set col. \<forall>z\<in>set col.
      cmp x y \<le> 0 \<longrightarrow> cmp y z \<le> 0 \<longrightarrow> cmp x z \<le> 0"
    using cons unfolding consistent_on_def list_all_iff by blast
  have trans: "?c a b \<le> 0 \<Longrightarrow> ?c b d \<le> 0 \<Longrightarrow> ?c a d \<le> 0"
    if "a \<in> set ?refs" "b \<in> set ?refs" "d \<in> set ?refs" for a b d
    using all row_reference_key(2)[OF wf k col that(1)] row_reference_key(2)[OF wf k col that(2)]
      row_reference_key(2)[OF wf k col that(3)]
    by blast
  have "sorted_wrt (\<lambda>a b. ?c a b \<le> 0) (Array_sort ?c ?refs)"
  proof (rule sorted_Array_sort[where S="set ?refs"])
    show "?c a b = - ?c b a" for a b by (rule anti)
    show "set ?refs \<subseteq> set ?refs" by simp
  qed (rule trans)
  then have "sorted_wrt (\<lambda>a b. cmp (col ! fst a) (col ! fst b) \<le> 0) (Array_sort ?c ?refs)"
  proof (rule sorted_wrt_mono_rel[rotated])
    fix a b assume "a \<in> set (Array_sort ?c ?refs)" "b \<in> set (Array_sort ?c ?refs)"
      and le: "?c a b \<le> 0"
    then have "a \<in> set ?refs" "b \<in> set ?refs" by (simp_all add: set_Array_sort)
    from row_reference_key(1)[OF wf k col this(1)] row_reference_key(1)[OF wf k col this(2)] le
    show "cmp (col ! fst a) (col ! fst b) \<le> 0" by simp
  qed
  then show ?thesis by (simp add: sorted_wrt_map)
qed

lemma sorted_references_stable:
  assumes wf: "wf_table t" and k: "k < length t" and col: "snd (t ! k) = col"
    and anti: "\<And>a b. cmp a b = - cmp b a"
  shows "sorted_wrt (\<lambda>i j. cmp (col ! i) (col ! j) = 0 \<longrightarrow> i < j)
           (map fst (Array_sort (\<lambda>a b. cmp (cellAt (snd a) k) (cellAt (snd b) k))
                      (zip [0..<getRowCount t] (getRows t))))"
proof -
  let ?refs = "zip [0..<getRowCount t] (getRows t)"
  let ?c = "\<lambda>a b. cmp (cellAt (snd a) k) (cellAt (snd b) k)"
  have "sorted_wrt (\<lambda>a b. fst a < fst b) ?refs"
    by (simp add: sorted_wrt_iff_nth_less)
  then have "sorted_wrt (\<lambda>a b. fst a < fst b \<or> ?c b a > 0) (Array_sort ?c ?refs)"
    by (rule stable_Array_sort)
  then have "sorted_wrt (\<lambda>a b. cmp (col ! fst a) (col ! fst b) = 0 \<longrightarrow> fst a < fst b)
      (Array_sort ?c ?refs)"
  proof (rule sorted_wrt_mono_rel[rotated])
    fix a b assume "a \<in> set (Array_sort ?c ?refs)" "b \<in> set (Array_sort ?c ?refs)"
      and or: "fst a < fst b \<or> 0 < ?c b a"
    then have "a \<in> set ?refs" "b \<in> set ?refs" by (simp_all add: set_Array_sort)
    from row_reference_key(1)[OF wf k col this(1)] row_reference_key(1)[OF wf k col this(2)]
    have "?c b a = cmp (col ! fst b) (col ! fst a)" by simp
    also have "\<dots> = - cmp (col ! fst a) (col ! fst b)" by (rule anti)
    finally show "cmp (col ! fst a) (col ! fst b) = 0 \<longrightarrow> fst a < fst b"
      using or by auto
  qed
  then show ?thesis by (simp add: sorted_wrt_map)
qed

lemma ascending_numeric:
  "numeric_cell a \<Longrightarrow> numeric_cell b \<Longrightarrow>
     ascending sn a b = (if numeric_key a < numeric_key b then -1
                         else if numeric_key b < numeric_key a then 1 else 0)"
  by (cases a; cases b)
     (auto simp: numeric_cell_def ascending_def or_zero_def js_lt_def js_gt_def js_less_def)

lemma numeric_cells_consistent:
  assumes "list_all numeric_cell col"
  shows "consistent_on (sort_compare sn d) col"
proof -
  have "sort_compare sn d a b \<le> 0 \<longleftrightarrow>
      (if d = Asc then numeric_key a \<le> numeric_key b else numeric_key b \<le> numeric_key a)"
    if "numeric_cell a" "numeric_cell b" for a b
    using that by (simp add: sort_compare_def descending_ascending ascending_numeric)
  then show ?thesis
    using assms unfolding consistent_on_def list_all_iff by (auto split: if_splits)
qed

lemma falsy_compare:
  "\<not> truthy a \<Longrightarrow> \<not> truthy b \<Longrightarrow> ascending sn a b = 0 \<and> descending sn a b = 0"
  by (simp add: ascending_def descending_def or_zero_def js_lt_def js_gt_def js_less_def)

text \<open>
  Claim C10. The comparators of the sort modifier read every falsy cell (\<^verbatim>\<open>undefined\<close>,
  \<^verbatim>\<open>false\<close>, \<open>0\<close>, \<^verbatim>\<open>NaN\<close>, the empty string) as \<open>0\<close>, so two falsy cells compare as equal
  in both directions; and a sort that reorders rows leaves a table unchanged when all
  cells of the column it orders by are falsy, whatever the direction.
\<close>

theorem C10_falsy_cells_compare_equal:
  "(\<not> truthy a \<longrightarrow> \<not> truthy b \<longrightarrow> ascending sn a b = 0 \<and> descending sn a b = 0) \<and>
   (wf_table t \<longrightarrow> getColumn t (orderByColumn opts) = Some col \<longrightarrow>
    list_all (\<lambda>c. \<not> truthy c) col \<longrightarrow> truthy_name (orderInColumn opts) = None \<longrightarrow>
    fst (SortModifier_modify sn opts t) = t)"
proof (intro conjI impI)
  assume "\<not> truthy a" "\<not> truthy b"
  then show "ascending sn a b = 0" "descending sn a b = 0"
    using falsy_compare by blast+
next
  assume wf: "wf_table t" and col: "getColumn t (orderByColumn opts) = Some col"
    and falsy: "list_all (\<lambda>c. \<not> truthy c) col" and mode: "truthy_name (orderInColumn opts) = None"
  from indexOf_column[OF wf col] obtain k where
    k: "k < length t" "indexOf (getColumnNames t) (orderByColumn opts) = int k"
       "t ! k = (orderByColumn opts, col)" by blast
  let ?refs = "zip [0..<getRowCount t] (getRows t)"
  let ?c = "\<lambda>a b. sort_compare sn (direction opts) (cellAt (snd a) k) (cellAt (snd b) k)"
  have kc: "snd (t ! k) = col" using k(3) by simp
  have "?c a b \<le> 0" if "a \<in> set ?refs" "b \<in> set ?refs" for a b
  proof -
    from row_reference_key(2)[OF wf k(1) kc that(1)] row_reference_key(2)[OF wf k(1) kc that(2)] falsy
    have "\<not> truthy (cellAt (snd a) k)" "\<not> truthy (cellAt (snd b) k)"
      by (simp_all add: list_all_iff)
    from falsy_compare[OF this] show ?thesis by (simp add: sort_compare_def)
  qed
  then have same: "Array_sort ?c ?refs = ?refs" by (intro Array_sort_all_equal) blast
  have "fold (\<lambda>i. setRow (snd (?refs ! i)) i) [0..<getRowCount t] t =
        fold (\<lambda>i. setRow (rowAt t i) i) [0..<getRowCount t] t"
    by (intro fold_cong) (auto simp: nth_getRows)
  also have "\<dots> = t" by (rule write_rows_identity[OF wf]) simp
  finally show "fst (SortModifier_modify sn opts t) = t"
    by (simp add: SortModifier_modify_found[OF k(2)] same mode)
qed

lemma rank_column_identity:
  assumes "length c0 = n"
  shows "fold (\<lambda>i c. writeAt c i (CNum (int i))) [0..<n] c0 = map (\<lambda>i. CNum (int i)) [0..<n]"
proof (rule nth_equalityI)
  show "length (fold (\<lambda>i c. writeAt c i (CNum (int i))) [0..<n] c0) = length (map (\<lambda>i. CNum (int i)) [0..<n])"
    using assms writeAt_loop_length[of "[0..<n]" "\<lambda>i. i" c0 "\<lambda>i. CNum (int i)"] by simp
next
  fix q assume "q < length (fold (\<lambda>i c. writeAt c i (CNum (int i))) [0..<n] c0)"
  then have q: "q < n"
    using assms writeAt_loop_length[of "[0..<n]" "\<lambda>i. i" c0 "\<lambda>i. CNum (int i)"] by simp
  then show "fold (\<lambda>i c. writeAt c i (CNum (int i))) [0..<n] c0 ! q = map (\<lambda>i. CNum (int i)) [0..<n] ! q"
    using assms writeAt_loop_nth[of "[0..<n]" "\<lambda>i. i" c0 q "\<lambda>i. CNum (int i)"] by simp
qed

lemma rank_column_start_length:
  assumes "wf_table t"
  shows "length (case map_of t name of Some col \<Rightarrow> col
                 | None \<Rightarrow> replicate (getRowCount t) CUndef) = getRowCount t"
proof (cases "map_of t name")
  case None
  then show ?thesis by simp
next
  case (Some col)
  then have "(name, col) \<in> set t" by (rule map_of_SomeD)
  from wf_table_length[OF assms this] Some show ?thesis by simp
qed

text \<open>
  Claim C8, as amended. For every table whose column names do not contain
  \<^verbatim>\<open>orderByColumn\<close>, \<^verbatim>\<open>SortModifier.modify\<close> emits \<^verbatim>\<open>execute\<close> and
  \<^verbatim>\<open>afterExecute\<close> and reorders no row. With \<^verbatim>\<open>orderInColumn\<close> unset the table is
  unchanged. With \<^verbatim>\<open>orderInColumn\<close> set, every row receives its own index in the named
  column (a table without rows is unchanged), and every other column is unchanged.
\<close>

theorem C8_sort_without_order_column:
  "wf_table t \<Longrightarrow> orderByColumn opts \<notin> set (getColumnNames t) \<Longrightarrow>
   snd (SortModifier_modify sn opts t) = [Event Execute None, Event AfterExecute None] \<and>
   (truthy_name (orderInColumn opts) = None \<longrightarrow> fst (SortModifier_modify sn opts t) = t) \<and>
   (\<forall>name. truthy_name (orderInColumn opts) = Some name \<longrightarrow>
      (\<forall>c. c \<noteq> name \<longrightarrow>
         getColumn (fst (SortModifier_modify sn opts t)) c = getColumn t c) \<and>
      (getRowCount t = 0 \<longrightarrow> fst (SortModifier_modify sn opts t) = t) \<and>
      (0 < getRowCount t \<longrightarrow>
         getColumn (fst (SortModifier_modify sn opts t)) name =
           Some (map (\<lambda>i. CNum (int i)) [0..<getRowCount t])))"
proof (intro conjI impI allI)
  assume wf: "wf_table t" and absent: "orderByColumn opts \<notin> set (getColumnNames t)"
  show "snd (SortModifier_modify sn opts t) = [Event Execute None, Event AfterExecute None]"
    by (rule SortModifier_modify_events)
  {
    assume "truthy_name (orderInColumn opts) = None"
    then show "fst (SortModifier_modify sn opts t) = t"
      using write_rows_identity[OF wf, of "getRowCount t"]
      by (simp add: SortModifier_modify_absent[OF absent])
  }
  fix name assume mode: "truthy_name (orderInColumn opts) = Some name"
  have M: "fst (SortModifier_modify sn opts t) =
      fold (\<lambda>i. setCell i name (CNum (int i))) [0..<getRowCount t] t"
    by (simp add: SortModifier_modify_absent[OF absent] mode)
  {
    fix c assume "c \<noteq> name"
    then show "getColumn (fst (SortModifier_modify sn opts t)) c = getColumn t c"
      unfolding M getColumn_def by (rule setCell_loop_other)
  }
  {
    assume "getRowCount t = 0"
    then show "fst (SortModifier_modify sn opts t) = t" by (simp add: M)
  }
  {
    assume "0 < getRowCount t"
    then have ne: "[0..<getRowCount t] \<noteq> []" by simp
    show "getColumn (fst (SortModifier_modify sn opts t)) name =
        Some (map (\<lambda>i. CNum (int i)) [0..<getRowCount t])"
      unfolding M getColumn_def
      by (simp only: setCell_loop_same[OF ne] rank_column_identity[OF rank_column_start_length[OF wf]])
  }
qed

lemma column_length:
  "wf_table t \<Longrightarrow> getColumn t name = Some col \<Longrightarrow> length col = getRowCount t"
proof -
  assume wf: "wf_table t" and c: "getColumn t name = Some col"
  from c have "(name, col) \<in> set t" by (simp add: getColumn_def map_of_SomeD)
  from wf_table_length[OF wf this] show ?thesis by simp
qed

lemma map_nth_fun: "map (\<lambda>i. f (xs ! i)) [0..<length xs] = map f xs"
  by (rule nth_equalityI) simp_all

text \<open>
  Claim C5, as amended. For every table that has the column \<^verbatim>\<open>orderByColumn\<close>, and
  on the cells of that column the selected comparator is consistent,
  \<^verbatim>\<open>SortModifier.modify\<close> sorts by an order of the row indices that is a permutation,
  is ordered by the comparator on the column's cells (which reads \<^verbatim>\<open>undefined\<close> as
  \<open>0\<close>) and is stable: rows that compare equal keep their relative order. With
  \<^verbatim>\<open>orderInColumn\<close> unset the rows are rewritten in that order; with it set, every
  other column is unchanged and each row receives its position in that order in the
  named column. The directions mean what they say: on cells read as numbers the
  ascending comparator is the order of the integers and the descending one its
  converse, on non-empty strings they are the lexicographic order and its converse; so
  on a column of numeric cells the keys are in ascending order for \<^verbatim>\<open>asc\<close> and in
  descending order for \<^verbatim>\<open>desc\<close>.
\<close>

theorem C5_sort_consistent_column:
  "wf_table t \<Longrightarrow> getColumn t (orderByColumn opts) = Some col \<Longrightarrow>
   consistent_on (sort_compare sn (direction opts)) col \<Longrightarrow>
   (\<forall>a b. numeric_cell a \<longrightarrow> numeric_cell b \<longrightarrow>
      (sort_compare sn Asc a b \<le> 0) = (numeric_key a \<le> numeric_key b) \<and>
      (sort_compare sn Desc a b \<le> 0) = (numeric_key b \<le> numeric_key a)) \<and>
   (\<forall>x y. x \<noteq> [] \<longrightarrow> y \<noteq> [] \<longrightarrow>
      (sort_compare sn Asc (CStr x) (CStr y) \<le> 0) = (x \<le> y) \<and>
      (sort_compare sn Desc (CStr x) (CStr y) \<le> 0) = (y \<le> x)) \<and>
   (\<exists>order.
     mset order = mset [0..<getRowCount t] \<and>
     sorted_wrt (\<lambda>i j. sort_compare sn (direction opts) (col ! i) (col ! j) \<le> 0) order \<and>
     sorted_wrt (\<lambda>i j. sort_compare sn (direction opts) (col ! i) (col ! j) = 0 \<longrightarrow> i < j) order \<and>
     sort_compare sn (direction opts) CUndef = sort_compare sn (direction opts) (CNum 0) \<and>
     (truthy_name (orderInColumn opts) = None \<longrightarrow>
        getColumnNames (fst (SortModifier_modify sn opts t)) = getColumnNames t \<and>
        getRows (fst (SortModifier_modify sn opts t)) = map (\<lambda>i. getRows t ! i) order) \<and>
     (\<forall>name. truthy_name (orderInColumn opts) = Some name \<longrightarrow>
        (\<forall>c. c \<noteq> name \<longrightarrow>
           getColumn (fst (SortModifier_modify sn opts t)) c = getColumn t c) \<and>
        (\<forall>q<getRowCount t. \<exists>ranks.
           getColumn (fst (SortModifier_modify sn opts t)) name = Some ranks \<and>
           length ranks = getRowCount t \<and> ranks ! (order ! q) = CNum (int q))) \<and>
     (list_all numeric_cell col \<longrightarrow>
        (direction opts = Asc \<longrightarrow> sorted (map (\<lambda>i. numeric_key (col ! i)) order)) \<and>
        (direction opts = Desc \<longrightarrow> sorted (rev (map (\<lambda>i. numeric_key (col ! i)) order)))))"
proof -
  assume wf: "wf_table t" and col: "getColumn t (orderByColumn opts) = Some col"
    and cons: "consistent_on (sort_compare sn (direction opts)) col"
  let ?cmp = "sort_compare sn (direction opts)"
  let ?n = "getRowCount t"
  from indexOf_column[OF wf col] obtain k where
    k: "k < length t" "indexOf (getColumnNames t) (orderByColumn opts) = int k"
       "t ! k = (orderByColumn opts, col)" by blast
  have kc: "snd (t ! k) = col" using k(3) by simp
  define s where "s = Array_sort (\<lambda>a b. ?cmp (cellAt (snd a) k) (cellAt (snd b) k))
                        (zip [0..<?n] (getRows t))"
  define order where "order = map fst s"
  have anti: "?cmp a b = - ?cmp b a" for a b by (rule sort_compare_antisym)
  have perm: "mset order = mset [0..<?n]"
    unfolding order_def s_def
    using sorted_references_perm[of _ "getRows t"] by simp
  have len: "length s = ?n" by (simp add: s_def length_Array_sort)
  have ordered: "sorted_wrt (\<lambda>i j. ?cmp (col ! i) (col ! j) \<le> 0) order"
    unfolding order_def s_def by (rule sorted_references_ordered[OF wf k(1) kc cons anti])
  have stable: "sorted_wrt (\<lambda>i j. ?cmp (col ! i) (col ! j) = 0 \<longrightarrow> i < j) order"
    unfolding order_def s_def by (rule sorted_references_stable[OF wf k(1) kc anti])
  have rows: "map snd s = map (\<lambda>i. getRows t ! i) order"
    unfolding order_def s_def by (rule sorted_references_rows)
  have undef: "?cmp CUndef = ?cmp (CNum 0)"
    by (intro ext) (simp add: sort_compare_def ascending_def descending_def or_zero_def)
  have M: "fst (SortModifier_modify sn opts t) =
      (case truthy_name (orderInColumn opts) of
         Some name \<Rightarrow> fold (\<lambda>i. setCell (fst (s ! i)) name (CNum (int i))) [0..<?n] t
       | None \<Rightarrow> fold (\<lambda>i. setRow (snd (s ! i)) i) [0..<?n] t)"
    unfolding SortModifier_modify_found[OF k(2)] s_def Let_def ..
  have order_lt: "i < ?n" if "i \<in> set order" for i
  proof -
    from that have "i \<in># mset order" by simp
    then show ?thesis unfolding perm by simp
  qed
  have dist: "distinct order"
    using perm by (metis distinct_upt mset_eq_imp_distinct_iff)
  have A: "getColumnNames (fst (SortModifier_modify sn opts t)) = getColumnNames t \<and>
      getRows (fst (SortModifier_modify sn opts t)) = map (\<lambda>i. getRows t ! i) order"
    if mode: "truthy_name (orderInColumn opts) = None"
  proof -
    have width: "\<forall>i<?n. length (snd (s ! i)) = length t"
    proof (intro allI impI)
      fix i assume i: "i < ?n"
      then have "snd (s ! i) = map snd s ! i" using len by simp
      also have "\<dots> = getRows t ! (order ! i)" using i len by (simp add: rows order_def)
      also have "\<dots> = rowAt t (order ! i)"
        using order_lt[of "order ! i"] i len by (simp add: nth_getRows order_def)
      finally show "length (snd (s ! i)) = length t" by simp
    qed
    from sort_write_rows[OF wf le_refl width]
    have "getColumnNames (fold (\<lambda>i. setRow (snd (s ! i)) i) [0..<?n] t) = getColumnNames t"
      and "getRows (fold (\<lambda>i. setRow (snd (s ! i)) i) [0..<?n] t) = map (\<lambda>i. snd (s ! i)) [0..<?n]"
      by simp_all
    moreover have "map (\<lambda>i. snd (s ! i)) [0..<?n] = map snd s"
      using map_nth_fun[of snd s] len by simp
    ultimately show ?thesis by (simp add: M mode rows)
  qed
  have B: "(\<forall>c. c \<noteq> name \<longrightarrow> getColumn (fst (SortModifier_modify sn opts t)) c = getColumn t c) \<and>
        (\<forall>q<?n. \<exists>ranks. getColumn (fst (SortModifier_modify sn opts t)) name = Some ranks \<and>
           length ranks = ?n \<and> ranks ! (order ! q) = CNum (int q))"
    if mode: "truthy_name (orderInColumn opts) = Some name" for name
  proof (intro conjI allI impI)
    have M': "fst (SortModifier_modify sn opts t) =
        fold (\<lambda>i. setCell (fst (s ! i)) name (CNum (int i))) [0..<?n] t"
      by (simp add: M mode)
    fix c assume "c \<noteq> name"
    then show "getColumn (fst (SortModifier_modify sn opts t)) c = getColumn t c"
      unfolding M' getColumn_def by (rule setCell_loop_other)
  next
    fix q assume q: "q < ?n"
    have M': "fst (SortModifier_modify sn opts t) =
        fold (\<lambda>i. setCell (fst (s ! i)) name (CNum (int i))) [0..<?n] t"
      by (simp add: M mode)
    let ?c0 = "case map_of t name of Some col \<Rightarrow> col | None \<Rightarrow> replicate ?n CUndef"
    let ?ranks = "fold (\<lambda>i c. writeAt c (fst (s ! i)) (CNum (int i))) [0..<?n] ?c0"
    have c0: "length ?c0 = ?n" by (rule rank_column_start_length[OF wf])
    have ne: "[0..<?n] \<noteq> []" using q by simp
    have ord: "map (\<lambda>i. fst (s ! i)) [0..<?n] = order"
      using map_nth_fun[of fst s] len by (simp add: order_def)
    have inr: "\<forall>i\<in>set [0..<?n]. fst (s ! i) < length ?c0"
    proof
      fix i assume "i \<in> set [0..<?n]"
      then have "fst (s ! i) \<in> set order" using len by (simp add: order_def)
      then show "fst (s ! i) < length ?c0" using order_lt c0 by simp
    qed
    have d: "distinct (map (\<lambda>i. fst (s ! i)) [0..<?n])" using dist ord by simp
    have "getColumn (fst (SortModifier_modify sn opts t)) name = Some ?ranks"
      unfolding M' getColumn_def by (rule setCell_loop_same[OF ne])
    moreover have "length ?ranks = ?n"
      using writeAt_loop_length[OF inr] c0 by simp
    moreover have "?ranks ! (order ! q) = CNum (int q)"
      using writeAt_loop_nth[OF inr d, of q "\<lambda>i. CNum (int i)"] q len by (simp add: order_def)
    ultimately show "\<exists>ranks. getColumn (fst (SortModifier_modify sn opts t)) name = Some ranks \<and>
           length ranks = ?n \<and> ranks ! (order ! q) = CNum (int q)" by blast
  qed
  have numbers: "(sort_compare sn Asc a b \<le> 0) = (numeric_key a \<le> numeric_key b) \<and>
      (sort_compare sn Desc a b \<le> 0) = (numeric_key b \<le> numeric_key a)"
    if "numeric_cell a" "numeric_cell b" for a b
    using that by (simp add: sort_compare_def descending_ascending ascending_numeric)
  have strings: "(sort_compare sn Asc (CStr x) (CStr y) \<le> 0) = (x \<le> y) \<and>
      (sort_compare sn Desc (CStr x) (CStr y) \<le> 0) = (y \<le> x)"
    if "x \<noteq> []" "y \<noteq> []" for x y
    using that
    by (auto simp: sort_compare_def ascending_def descending_def or_zero_def js_lt_def
        js_gt_def js_less_def)
  have coln: "length col = ?n" by (rule column_length[OF wf col])
  have C: "(direction opts = Asc \<longrightarrow> sorted (map (\<lambda>i. numeric_key (col ! i)) order)) \<and>
      (direction opts = Desc \<longrightarrow> sorted (rev (map (\<lambda>i. numeric_key (col ! i)) order)))"
    if num: "list_all numeric_cell col"
  proof -
    have nc: "numeric_cell (col ! i)" if "i \<in> set order" for i
      using order_lt[OF that] num coln by (simp add: list_all_length)
    have asc: "sorted_wrt (\<lambda>i j. numeric_key (col ! i) \<le> numeric_key (col ! j)) order"
      if d: "direction opts = Asc"
    proof (rule sorted_wrt_mono_rel[OF _ ordered])
      fix i j assume "i \<in> set order" "j \<in> set order"
        and "?cmp (col ! i) (col ! j) \<le> 0"
      then show "numeric_key (col ! i) \<le> numeric_key (col ! j)"
        using numbers[OF nc nc, of i j] d by simp
    qed
    have desc: "sorted_wrt (\<lambda>i j. numeric_key (col ! j) \<le> numeric_key (col ! i)) order"
      if d: "direction opts = Desc"
    proof (rule sorted_wrt_mono_rel[OF _ ordered])
      fix i j assume "i \<in> set order" "j \<in> set order"
        and "?cmp (col ! i) (col ! j) \<le> 0"
      then show "numeric_key (col ! j) \<le> numeric_key (col ! i)"
        using numbers[OF nc nc, of i j] d by simp
    qed
    show ?thesis
      using asc desc by (simp add: sorted_wrt_map sorted_wrt_rev)
  qed
  have E: "\<exists>order.
     mset order = mset [0..<getRowCount t] \<and>
     sorted_wrt (\<lambda>i j. sort_compare sn (direction opts) (col ! i) (col ! j) \<le> 0) order \<and>
     sorted_wrt (\<lambda>i j. sort_compare sn (direction opts) (col ! i) (col ! j) = 0 \<longrightarrow> i < j) order \<and>
     sort_compare sn (direction opts) CUndef = sort_compare sn (direction opts) (CNum 0) \<and>
     (truthy_name (orderInColumn opts) = None \<longrightarrow>
        getColumnNames (fst (SortModifier_modify sn opts t)) = getColumnNames t \<and>
        getRows (fst (SortModifier_modify sn opts t)) = map (\<lambda>i. getRows t ! i) order) \<and>
     (\<forall>name. truthy_name (orderInColumn opts) = Some name \<longrightarrow>
        (\<forall>c. c \<noteq> name \<longrightarrow>
           getColumn (fst (SortModifier_modify sn opts t)) c = getColumn t c) \<and>
        (\<forall>q<getRowCount t. \<exists>ranks.
           getColumn (fst (SortModifier_modify sn opts t)) name = Some ranks \<and>
           length ranks = getRowCount t \<and> ranks ! (order ! q) = CNum (int q))) \<and>
     (list_all numeric_cell col \<longrightarrow>
        (direction opts = Asc \<longrightarrow> sorted (map (\<lambda>i. numeric_key (col ! i)) order)) \<and>
        (direction opts = Desc \<longrightarrow> sorted (rev (map (\<lambda>i. numeric_key (col ! i)) order))))"
  proof (intro exI[of _ order] conjI)
    show "mset order = mset [0..<?n]" by (rule perm)
    show "sorted_wrt (\<lambda>i j. ?cmp (col ! i) (col ! j) \<le> 0) order" by (rule ordered)
    show "sorted_wrt (\<lambda>i j. ?cmp (col ! i) (col ! j) = 0 \<longrightarrow> i < j) order" by (rule stable)
    show "?cmp CUndef = ?cmp (CNum 0)" by (rule undef)
    show "truthy_name (orderInColumn opts) = None \<longrightarrow>
        getColumnNames (fst (SortModifier_modify sn opts t)) = getColumnNames t \<and>
        getRows (fst (SortModifier_modify sn opts t)) = map (\<lambda>i. getRows t ! i) order"
      by (intro impI) (rule A)
    show "\<forall>name. truthy_name (orderInColumn opts) = Some name \<longrightarrow>
        (\<forall>c. c \<noteq> name \<longrightarrow>
           getColumn (fst (SortModifier_modify sn opts t)) c = getColumn t c) \<and>
        (\<forall>q<getRowCount t. \<exists>ranks.
           getColumn (fst (SortModifier_modify sn opts t)) name = Some ranks \<and>
           length ranks = getRowCount t \<and> ranks ! (order ! q) = CNum (int q))"
      by (intro allI impI) (rule B)
    show "list_all numeric_cell col \<longrightarrow>
        (direction opts = Asc \<longrightarrow> sorted (map (\<lambda>i. numeric_key (col ! i)) order)) \<and>
        (direction opts = Desc \<longrightarrow> sorted (rev (map (\<lambda>i. numeric_key (col ! i)) order)))"
      by (intro impI) (rule C)
  qed
  have N: "\<forall>a b. numeric_cell a \<longrightarrow> numeric_cell b \<longrightarrow>
      (sort_compare sn Asc a b \<le> 0) = (numeric_key a \<le> numeric_key b) \<and>
      (sort_compare sn Desc a b \<le> 0) = (numeric_key b \<le> numeric_key a)"
    by (intro allI impI) (rule numbers)
  have S: "\<forall>x y. x \<noteq> [] \<longrightarrow> y \<noteq> [] \<longrightarrow>
      (sort_compare sn Asc (CStr x) (CStr y) \<le> 0) = (x \<le> y) \<and>
      (sort_compare sn Desc (CStr x) (CStr y) \<le> 0) = (y \<le> x)"
    by (intro allI impI) (rule strings)
  from N S E show ?thesis by (intro conjI)
qed

theorem C10_falsy_cells_compare_equal_witness:
  "ascending StringToNumber (CBool False) (CStr []) = 0 \<and>
   descending StringToNumber (CBool False) (CStr []) = 0 \<and>
   fst (SortModifier_modify StringToNumber
          \<lparr>sort_modifier = ''Order'', direction = Asc, orderByColumn = ''y'',
           orderInColumn = None\<rparr>
          [(''y'', [CBool False, CNum 0, CStr []])]) =
     [(''y'', [CBool False, CNum 0, CStr []])] \<and>
   fst (SortModifier_modify StringToNumber
          \<lparr>sort_modifier = ''Order'', direction = Desc, orderByColumn = ''y'',
           orderInColumn = None\<rparr>
          [(''y'', [CBool False, CNum 0, CStr []])]) =
     [(''y'', [CBool False, CNum 0, CStr []])]"
proof -
  let ?t = "[(''y'', [CBool False, CNum 0, CStr []])]"
  have wf: "wf_table ?t" by (simp add: wf_table_def getRowCount_def)
  have col: "getColumn ?t ''y'' = Some [CBool False, CNum 0, CStr []]"
    by (simp add: getColumn_def)
  have falsy: "list_all (\<lambda>c. \<not> truthy c) [CBool False, CNum 0, CStr []]" by simp
  have f: "\<not> truthy (CBool False)" "\<not> truthy (CStr [])" by simp_all
  show ?thesis
    using C10_falsy_cells_compare_equal[of "CBool False" "CStr []" StringToNumber ?t
        "\<lparr>sort_modifier = ''Order'', direction = Asc, orderByColumn = ''y'',
          orderInColumn = None\<rparr>" "[CBool False, CNum 0, CStr []]"]
      C10_falsy_cells_compare_equal[of "CBool False" "CStr []" StringToNumber ?t
        "\<lparr>sort_modifier = ''Order'', direction = Desc, orderByColumn = ''y'',
          orderInColumn = None\<rparr>" "[CBool False, CNum 0, CStr []]"]
      wf col falsy f
    by (simp add: truthy_name_def)
qed

text \<open>
  Claim C8 as stated fails: the table with the one column \<open>x\<close> has no column \<open>y\<close>, and
  sorting it by \<open>y\<close> with \<^verbatim>\<open>orderInColumn: 'rank'\<close> writes the column \<open>rank\<close>.
\<close>

theorem C8_counterexample:
  "wf_table [(''x'', [CNum 5])] \<and>
   ''y'' \<notin> set (getColumnNames [(''x'', [CNum 5])]) \<and>
   fst (SortModifier_modify StringToNumber
          \<lparr>sort_modifier = ''Order'', direction = Desc, orderByColumn = ''y'',
           orderInColumn = Some ''rank''\<rparr> [(''x'', [CNum 5])]) =
     [(''x'', [CNum 5]), (''rank'', [CNum 0])] \<and>
   fst (SortModifier_modify StringToNumber
          \<lparr>sort_modifier = ''Order'', direction = Desc, orderByColumn = ''y'',
           orderInColumn = Some ''rank''\<rparr> [(''x'', [CNum 5])]) \<noteq> [(''x'', [CNum 5])]"
  by code_simp

theorem C8_sort_without_order_column_witness:
  "wf_table [(''x'', [CNum 5, CNum 7])] \<and>
   ''y'' \<notin> set (getColumnNames [(''x'', [CNum 5, CNum 7])]) \<and>
   snd (SortModifier_modify StringToNumber
          \<lparr>sort_modifier = ''Order'', direction = Desc, orderByColumn = ''y'',
           orderInColumn = Some ''rank''\<rparr> [(''x'', [CNum 5, CNum 7])]) =
     [Event Execute None, Event AfterExecute None] \<and>
   getColumn (fst (SortModifier_modify StringToNumber
          \<lparr>sort_modifier = ''Order'', direction = Desc, orderByColumn = ''y'',
           orderInColumn = Some ''rank''\<rparr> [(''x'', [CNum 5, CNum 7])])) ''x'' =
     Some [CNum 5, CNum 7] \<and>
   getColumn (fst (SortModifier_modify StringToNumber
          \<lparr>sort_modifier = ''Order'', direction = Desc, orderByColumn = ''y'',
           orderInColumn = Some ''rank''\<rparr> [(''x'', [CNum 5, CNum 7])])) ''rank'' =
     Some [CNum 0, CNum 1]"
proof -
  let ?t = "[(''x'', [CNum 5, CNum 7])]"
  let ?o = "\<lparr>sort_modifier = ''Order'', direction = Desc, orderByColumn = ''y'',
           orderInColumn = Some ''rank''\<rparr>"
  have wf: "wf_table ?t" by (simp add: wf_table_def getRowCount_def)
  have absent: "orderByColumn ?o \<notin> set (getColumnNames ?t)" by (simp add: getColumnNames_def)
  have mode: "truthy_name (orderInColumn ?o) = Some ''rank''" by (simp add: truthy_name_def)
  have n: "getRowCount ?t = 2" by (simp add: getRowCount_def)
  have upt: "[0..<2] = [0, Suc 0]" by (simp add: upt_rec)
  from C8_sort_without_order_column[OF wf absent, of StringToNumber] mode n
  have "snd (SortModifier_modify StringToNumber ?o ?t) = [Event Execute None, Event AfterExecute None]"
    and "getColumn (fst (SortModifier_modify StringToNumber ?o ?t)) ''x'' = getColumn ?t ''x''"
    and "getColumn (fst (SortModifier_modify StringToNumber ?o ?t)) ''rank'' =
           Some (map (\<lambda>i. CNum (int i)) [0..<2])"
    by simp_all
  then show ?thesis using wf absent by (simp add: getColumn_def upt)
qed

text \<open>
  Claim C5 as stated fails: the column \<open>y\<close> holds \<open>'b'\<close>, the empty string and \<open>'a'\<close>.
  The empty string is read as \<open>0\<close>, which compares equal to both other strings, so an
  ascending sort leaves the rows as they are, with \<open>'b'\<close> before \<open>'a'\<close>, although
  \<open>'b'\<close> compares greater than \<open>'a'\<close>; no stable order of these rows is ascending.
\<close>

theorem C5_counterexample:
  "wf_table [(''y'', [CStr ''b'', CStr [], CStr ''a''])] \<and>
   ''y'' \<in> set (getColumnNames [(''y'', [CStr ''b'', CStr [], CStr ''a''])]) \<and>
   getRows (fst (SortModifier_modify StringToNumber
      \<lparr>sort_modifier = ''Order'', direction = Asc, orderByColumn = ''y'',
       orderInColumn = None\<rparr> [(''y'', [CStr ''b'', CStr [], CStr ''a''])])) =
     [[CStr ''b''], [CStr []], [CStr ''a'']] \<and>
   ascending StringToNumber (CStr ''b'') (CStr []) = 0 \<and>
   ascending StringToNumber (CStr []) (CStr ''a'') = 0 \<and>
   ascending StringToNumber (CStr ''b'') (CStr ''a'') = 1 \<and>
   \<not> sorted_wrt (\<lambda>r r'. sort_compare StringToNumber Asc (cellAt r 0) (cellAt r' 0) \<le> 0)
      (getRows (fst (SortModifier_modify StringToNumber
         \<lparr>sort_modifier = ''Order'', direction = Asc, orderByColumn = ''y'',
          orderInColumn = None\<rparr> [(''y'', [CStr ''b'', CStr [], CStr ''a''])])))"
  by code_simp

lemma keys_of_sorted_order:
  "mset order = mset [0..<n] \<Longrightarrow> sorted (map f order) \<Longrightarrow>
     map f order = sort (map f [0..<n])"
proof -
  assume p: "mset order = mset [0..<n]" and s: "sorted (map f order)"
  have "mset (map f order) = mset (map f [0..<n])" using p by (metis mset_map)
  from properties_for_sort[OF this s] show ?thesis by simp
qed

theorem C5_sort_consistent_column_witness:
  "wf_table [(''y'', [CNum 3, CNum 1, CNum 2]), (''n'', [CStr ''p'', CStr ''q'', CStr ''r''])] \<and>
   getColumn [(''y'', [CNum 3, CNum 1, CNum 2]), (''n'', [CStr ''p'', CStr ''q'', CStr ''r''])]
     ''y'' = Some [CNum 3, CNum 1, CNum 2] \<and>
   consistent_on (sort_compare StringToNumber Asc) [CNum 3, CNum 1, CNum 2] \<and>
   consistent_on (sort_compare StringToNumber Desc) [CNum 3, CNum 1, CNum 2] \<and>
   getRows (fst (SortModifier_modify StringToNumber
      \<lparr>sort_modifier = ''Order'', direction = Asc, orderByColumn = ''y'', orderInColumn = None\<rparr>
      [(''y'', [CNum 3, CNum 1, CNum 2]), (''n'', [CStr ''p'', CStr ''q'', CStr ''r''])])) =
     [[CNum 1, CStr ''q''], [CNum 2, CStr ''r''], [CNum 3, CStr ''p'']] \<and>
   getRows (fst (SortModifier_modify StringToNumber
      \<lparr>sort_modifier = ''Order'', direction = Desc, orderByColumn = ''y'', orderInColumn = None\<rparr>
      [(''y'', [CNum 3, CNum 1, CNum 2]), (''n'', [CStr ''p'', CStr ''q'', CStr ''r''])])) =
     [[CNum 3, CStr ''p''], [CNum 2, CStr ''r''], [CNum 1, CStr ''q'']] \<and>
   fst (SortModifier_modify StringToNumber
      \<lparr>sort_modifier = ''Order'', direction = Asc, orderByColumn = ''y'',
       orderInColumn = Some ''rank''\<rparr>
      [(''y'', [CNum 3, CNum 1, CNum 2]), (''n'', [CStr ''p'', CStr ''q'', CStr ''r''])]) =
     [(''y'', [CNum 3, CNum 1, CNum 2]), (''n'', [CStr ''p'', CStr ''q'', CStr ''r'']),
      (''rank'', [CNum 2, CNum 0, CNum 1])] \<and>
   fst (SortModifier_modify StringToNumber
      \<lparr>sort_modifier = ''Order'', direction = Desc, orderByColumn = ''y'',
       orderInColumn = Some ''rank''\<rparr>
      [(''y'', [CNum 3, CNum 1, CNum 2]), (''n'', [CStr ''p'', CStr ''q'', CStr ''r''])]) =
     [(''y'', [CNum 3, CNum 1, CNum 2]), (''n'', [CStr ''p'', CStr ''q'', CStr ''r'']),
      (''rank'', [CNum 0, CNum 2, CNum 1])] \<and>
   getRows (fst (SortModifier_modify StringToNumber
      \<lparr>sort_modifier = ''Order'', direction = Asc, orderByColumn = ''y'', orderInColumn = None\<rparr>
      [(''y'', [CNum 2, CNum 1, CUndef, CNum 2, CNum 1]),
       (''n'', [CStr ''p'', CStr ''q'', CStr ''r'', CStr ''s'', CStr ''t''])])) =
     [[CUndef, CStr ''r''], [CNum 1, CStr ''q''], [CNum 1, CStr ''t''],
      [CNum 2, CStr ''p''], [CNum 2, CStr ''s'']] \<and>
   getRows (fst (SortModifier_modify StringToNumber
      \<lparr>sort_modifier = ''Order'', direction = Desc, orderByColumn = ''y'', orderInColumn = None\<rparr>
      [(''y'', [CNum 2, CNum 1, CUndef, CNum 2, CNum 1]),
       (''n'', [CStr ''p'', CStr ''q'', CStr ''r'', CStr ''s'', CStr ''t''])])) =
     [[CNum 2, CStr ''p''], [CNum 2, CStr ''s''], [CNum 1, CStr ''q''],
      [CNum 1, CStr ''t''], [CUndef, CStr ''r'']]"
proof -
  let ?t = "[(''y'', [CNum 3, CNum 1, CNum 2]), (''n'', [CStr ''p'', CStr ''q'', CStr ''r''])]"
  let ?c = "[CNum 3, CNum 1, CNum 2]"
  let ?a = "\<lparr>sort_modifier = ''Order'', direction = Asc, orderByColumn = ''y'',
             orderInColumn = None\<rparr>"
  let ?d = "\<lparr>sort_modifier = ''Order'', direction = Desc, orderByColumn = ''y'',
             orderInColumn = None\<rparr>"
  let ?f = "\<lambda>i. numeric_key (?c ! i)"
  have wf: "wf_table ?t" by (simp add: wf_table_def getRowCount_def)
  have col: "getColumn ?t ''y'' = Some ?c" by (simp add: getColumn_def)
  have cola: "getColumn ?t (orderByColumn ?a) = Some ?c" by (simp add: getColumn_def)
  have cold: "getColumn ?t (orderByColumn ?d) = Some ?c" by (simp add: getColumn_def)
  have num: "list_all numeric_cell ?c" by (simp add: numeric_cell_def)
  have consa: "consistent_on (sort_compare StringToNumber Asc) ?c"
    by (rule numeric_cells_consistent[OF num])
  have consd: "consistent_on (sort_compare StringToNumber Desc) ?c"
    by (rule numeric_cells_consistent[OF num])
  have consa': "consistent_on (sort_compare StringToNumber (direction ?a)) ?c"
    using consa by simp
  have consd': "consistent_on (sort_compare StringToNumber (direction ?d)) ?c"
    using consd by simp
  have n: "getRowCount ?t = 3" by (simp add: getRowCount_def)
  have rows: "getRows ?t = [[CNum 3, CStr ''p''], [CNum 1, CStr ''q''], [CNum 2, CStr ''r'']]"
    by code_simp
  have upt3: "[0..<3] = [0, 1, 2]" by (simp add: upt_rec)
  have keys: "sort (map ?f [0..<3]) = [1, 2, 3]" by (simp add: upt3)
  have index: "order = [a, b, c]"
    if "mset order = mset [0..<3]" "map ?f order = [?f a, ?f b, ?f c]"
       "a < 3" "b < 3" "c < 3" for order a b c
  proof -
    from that(2) obtain x y z where o: "order = [x, y, z]"
      and e: "?f x = ?f a" "?f y = ?f b" "?f z = ?f c"
      by (auto simp: map_eq_Cons_conv)
    from that(1) have "set order = set [0..<3]" by (rule mset_eq_setD)
    then have lt: "x < 3" "y < 3" "z < 3" using o by auto
    have inj: "i = j" if "?f i = ?f j" "i < 3" "j < 3" for i j
      using that by (auto simp: less_Suc_eq numeral_3_eq_3)
    from inj[OF e(1) lt(1) that(3)] inj[OF e(2) lt(2) that(4)] inj[OF e(3) lt(3) that(5)] o
    show ?thesis by simp
  qed
  from C5_sort_consistent_column[OF wf cola consa']
  have asc: "getRows (fst (SortModifier_modify StringToNumber ?a ?t)) =
     [[CNum 1, CStr ''q''], [CNum 2, CStr ''r''], [CNum 3, CStr ''p'']]"
  proof (elim exE conjE)
    fix order
    assume p: "mset order = mset [0..<getRowCount ?t]"
    assume r: "truthy_name (orderInColumn ?a) = None \<longrightarrow>
        getColumnNames (fst (SortModifier_modify StringToNumber ?a ?t)) = getColumnNames ?t \<and>
        getRows (fst (SortModifier_modify StringToNumber ?a ?t)) = map (\<lambda>i. getRows ?t ! i) order"
    assume s: "list_all numeric_cell ?c \<longrightarrow>
        (direction ?a = Asc \<longrightarrow> sorted (map (\<lambda>i. numeric_key (?c ! i)) order)) \<and>
        (direction ?a = Desc \<longrightarrow> sorted (rev (map (\<lambda>i. numeric_key (?c ! i)) order)))"
    from p n have p3: "mset order = mset [0..<3]" by simp
    from s num have "sorted (map ?f order)" by simp
    from keys_of_sorted_order[OF p3 this] keys
    have "map ?f order = [?f 1, ?f 2, ?f 0]" by simp
    from index[OF p3 this] have "order = [1, 2, 0]" by simp
    moreover from r have "getRows (fst (SortModifier_modify StringToNumber ?a ?t)) =
        map (\<lambda>i. getRows ?t ! i) order" by (simp add: truthy_name_def)
    ultimately show ?thesis by (simp add: rows)
  qed
  from C5_sort_consistent_column[OF wf cold consd']
  have desc: "getRows (fst (SortModifier_modify StringToNumber ?d ?t)) =
     [[CNum 3, CStr ''p''], [CNum 2, CStr ''r''], [CNum 1, CStr ''q'']]"
  proof (elim exE conjE)
    fix order
    assume p: "mset order = mset [0..<getRowCount ?t]"
    assume r: "truthy_name (orderInColumn ?d) = None \<longrightarrow>
        getColumnNames (fst (SortModifier_modify StringToNumber ?d ?t)) = getColumnNames ?t \<and>
        getRows (fst (SortModifier_modify StringToNumber ?d ?t)) = map (\<lambda>i. getRows ?t ! i) order"
    assume s: "list_all numeric_cell ?c \<longrightarrow>
        (direction ?d = Asc \<longrightarrow> sorted (map (\<lambda>i. numeric_key (?c ! i)) order)) \<and>
        (direction ?d = Desc \<longrightarrow> sorted (rev (map (\<lambda>i. numeric_key (?c ! i)) order)))"
    from p n have p3: "mset order = mset [0..<3]" by simp
    then have p3': "mset (rev order) = mset [0..<3]" by simp
    from s num have "sorted (map ?f (rev order))" by (simp add: rev_map)
    from keys_of_sorted_order[OF p3' this] keys
    have "map ?f (rev order) = [?f 1, ?f 2, ?f 0]" by simp
    from index[OF p3' this] have "rev order = [1, 2, 0]" by simp
    then have "order = [0, 2, 1]" by (simp add: rev_swap)
    moreover from r have "getRows (fst (SortModifier_modify StringToNumber ?d ?t)) =
        map (\<lambda>i. getRows ?t ! i) order" by (simp add: truthy_name_def)
    ultimately show ?thesis by (simp add: rows)
  qed
  have ranka: "fst (SortModifier_modify StringToNumber
      \<lparr>sort_modifier = ''Order'', direction = Asc, orderByColumn = ''y'',
       orderInColumn = Some ''rank''\<rparr> ?t) =
     [(''y'', [CNum 3, CNum 1, CNum 2]), (''n'', [CStr ''p'', CStr ''q'', CStr ''r'']),
      (''rank'', [CNum 2, CNum 0, CNum 1])]" by code_simp
  have rankd: "fst (SortModifier_modify StringToNumber
      \<lparr>sort_modifier = ''Order'', direction = Desc, orderByColumn = ''y'',
       orderInColumn = Some ''rank''\<rparr> ?t) =
     [(''y'', [CNum 3, CNum 1, CNum 2]), (''n'', [CStr ''p'', CStr ''q'', CStr ''r'']),
      (''rank'', [CNum 0, CNum 2, CNum 1])]" by code_simp
  have tiea: "getRows (fst (SortModifier_modify StringToNumber ?a
      [(''y'', [CNum 2, CNum 1, CUndef, CNum 2, CNum 1]),
       (''n'', [CStr ''p'', CStr ''q'', CStr ''r'', CStr ''s'', CStr ''t''])])) =
     [[CUndef, CStr ''r''], [CNum 1, CStr ''q''], [CNum 1, CStr ''t''],
      [CNum 2, CStr ''p''], [CNum 2, CStr ''s'']]" by code_simp
  have tied: "getRows (fst (SortModifier_modify StringToNumber ?d
      [(''y'', [CNum 2, CNum 1, CUndef, CNum 2, CNum 1]),
       (''n'', [CStr ''p'', CStr ''q'', CStr ''r'', CStr ''s'', CStr ''t''])])) =
     [[CNum 2, CStr ''p''], [CNum 2, CStr ''s''], [CNum 1, CStr ''q''],
      [CNum 1, CStr ''t''], [CUndef, CStr ''r'']]" by code_simp
  show ?thesis by (intro conjI wf col consa consd asc desc ranka rankd tiea tied)
qed

subsection \<open>Serialization\<close>

lemma fromJSON_modifiers_roundtrip:
  "\<forall>m\<in>set ms. DataJSON_fromJSON (toJSON m) = Some m \<Longrightarrow>
     fromJSON_modifiers (map toJSON ms) = ms"
  by (induction ms) auto

lemma roundtrip_sort_free:
  "sort_free m \<Longrightarrow> DataJSON_fromJSON (toJSON m) = Some m"
proof (induction m)
  case (Chain opts ms)
  then have "\<forall>m\<in>set ms. DataJSON_fromJSON (toJSON m) = Some m"
    by (auto simp: list_all_iff)
  then show ?case
    by (simp add: registered_classes_def fromJSON_modifiers_roundtrip)
qed (simp_all add: registered_classes_def)

text \<open>
  Claim C7. For every modifier kind, \<^verbatim>\<open>fromJSON(x.toJSON())\<close> should succeed and give a
  modifier with the same JSON. The sort modifier has \<^verbatim>\<open>toJSON\<close> but no \<^verbatim>\<open>fromJSON\<close>
  and is not registered: its JSON gives no instance, and a chain that holds a sort
  modifier comes back without it, with a different JSON.
\<close>

theorem C7_sort_modifier_not_deserialized:
  "DataJSON_fromJSON (toJSON (Sort opts)) = None \<and>
   DataJSON_fromJSON (toJSON (Chain ChainModifier_defaultOptions
       [Sort opts, Invert InvertModifier_defaultOptions])) =
     Some (Chain ChainModifier_defaultOptions [Invert InvertModifier_defaultOptions]) \<and>
   toJSON (Chain ChainModifier_defaultOptions [Invert InvertModifier_defaultOptions]) \<noteq>
     toJSON (Chain ChainModifier_defaultOptions
       [Sort opts, Invert InvertModifier_defaultOptions])"
  by (simp add: registered_classes_def)

subsection \<open>RangeModifier\<close>
























subsection \<open>GroupModifier\<close>










lemma set_first_seen [simp]: "set (first_seen xs) = set xs"
  by (simp add: first_seen_def)

lemma distinct_first_seen [simp]: "distinct (first_seen xs)"
  by (simp add: first_seen_def)







text \<open>subtables\<close>

lemma setColumn_fresh: "name \<notin> fst ` set t \<Longrightarrow> setColumn name c t = t @ [(name, c)]"
  by (induction t) auto
















subsection \<open>InvertModifier\<close>

lemma digits_value_snoc:
  "digits_value (cs @ [c]) acc =
     (case digits_value cs acc of
        None \<Rightarrow> None
      | Some v \<Rightarrow> (case digit_of c of None \<Rightarrow> None | Some d \<Rightarrow> Some (10 * v + d)))"
  by (induction cs arbitrary: acc) (auto split: option.splits)

lemma digit_of_char_of: "d < 10 \<Longrightarrow> digit_of (char_of (48 + d)) = Some d"
  by (simp add: digit_of_def Let_def)

lemma digits_value_string_of_nat: "digits_value (string_of_nat n) 0 = Some n"
proof (induction n rule: string_of_nat.induct)
  case (1 n)
  show ?case
  proof (cases "n < 10")
    case True
    then show ?thesis
      by (subst string_of_nat.simps) (simp add: digit_of_char_of)
  next
    case False
    have d: "digit_of (char_of (48 + n mod 10)) = Some (n mod 10)"
      by (rule digit_of_char_of) simp
    from False 1 have "digits_value (string_of_nat (n div 10)) 0 = Some (n div 10)" by simp
    with False d show ?thesis
      by (subst string_of_nat.simps) (simp add: digits_value_snoc)
  qed
qed

lemma string_of_nat_inj: "string_of_nat i = string_of_nat j \<Longrightarrow> i = j"
  by (metis digits_value_string_of_nat option.inject)

lemma columnNames_not_index: "string_of_nat i \<noteq> ''columnNames''"
proof
  assume "string_of_nat i = ''columnNames''"
  then have "digits_value ''columnNames'' 0 = Some i"
    using digits_value_string_of_nat[of i] by simp
  then show False by (simp add: digit_of_def)
qed

lemma array_index_string_of_nat:
  "array_index (string_of_nat i) = (if int i < 4294967295 then Some i else None)"
  by (simp add: array_index_def digits_value_string_of_nat)

lemma array_index_columnNames: "array_index ''columnNames'' = None"
  by (simp add: array_index_def digit_of_def)

lemma properties_sorted:
  assumes "\<forall>p\<in>set A. array_index (fst p) \<noteq> None"
    and "sorted (map (\<lambda>p. case array_index (fst p) of Some n \<Rightarrow> n | None \<Rightarrow> 0) A)"
    and "\<forall>p\<in>set C. array_index (fst p) = None"
  shows "properties (A @ C) = A @ C"
proof -
  have "filter (\<lambda>p. array_index (fst p) \<noteq> None) (A @ C) = A"
    using assms(1,3) by (simp add: filter_id_conv filter_empty_conv)
  moreover have "filter (\<lambda>p. array_index (fst p) = None) (A @ C) = C"
    using assms(1,3) by (simp add: filter_id_conv filter_empty_conv)
  ultimately show ?thesis
    using assms(2) by (simp add: properties_def sort_key_id_if_sorted)
qed

lemma properties_regular:
  "properties (map (\<lambda>i. (string_of_nat i, f i)) [0..<n] @ [(''columnNames'', c)]) =
     map (\<lambda>i. (string_of_nat i, f i)) [0..<n] @ [(''columnNames'', c)]"
proof -
  let ?g = "\<lambda>i. (string_of_nat i, f i)"
  define m where "m = min n (nat 4294967295)"
  have mn: "m \<le> n" by (simp add: m_def)
  have split: "[0..<n] = [0..<m] @ [m..<n]"
    using upt_add_eq_append[of 0 m "n - m"] mn by simp
  have idx: "array_index (string_of_nat i) = Some i" if "i < m" for i
    using that by (simp add: array_index_string_of_nat m_def)
  have nidx: "array_index (string_of_nat i) = None" if "m \<le> i" "i < n" for i
    using that by (simp add: array_index_string_of_nat m_def)
  have A: "\<forall>p\<in>set (map ?g [0..<m]). array_index (fst p) \<noteq> None"
    using idx by auto
  have "map (\<lambda>p. case array_index (fst p) of Some n \<Rightarrow> n | None \<Rightarrow> 0) (map ?g [0..<m]) =
        [0..<m]"
    by (rule nth_equalityI) (simp_all add: idx)
  then have S: "sorted (map (\<lambda>p. case array_index (fst p) of Some n \<Rightarrow> n | None \<Rightarrow> 0)
                   (map ?g [0..<m]))"
    by simp
  have C: "\<forall>p\<in>set (map ?g [m..<n] @ [(''columnNames'', c)]). array_index (fst p) = None"
    using nidx by (auto simp: array_index_columnNames)
  from properties_sorted[OF A S C] show ?thesis
    by (simp add: split)
qed

lemma distinct_snoc: "distinct xs \<Longrightarrow> x \<notin> set xs \<Longrightarrow> distinct (xs @ [x])"
  by simp

lemma fold_setColumn_fresh:
  "distinct (map f xs) \<Longrightarrow> f ` set xs \<inter> fst ` set acc = {} \<Longrightarrow>
     fold (\<lambda>i cols. setColumn (f i) (g i) cols) xs acc = acc @ map (\<lambda>i. (f i, g i)) xs"
proof (induction xs arbitrary: acc)
  case Nil
  then show ?case by simp
next
  case (Cons x xs)
  have fresh: "f x \<notin> fst ` set acc" using Cons.prems by auto
  have "f ` set xs \<inter> fst ` set (acc @ [(f x, g x)]) = {}" using Cons.prems by auto
  from Cons.IH[OF _ this] Cons.prems(1) show ?case
    by (simp add: setColumn_fresh[OF fresh])
qed

lemma setColumns_fresh: "distinct (map fst cols) \<Longrightarrow> setColumns cols [] = cols"
  using fold_setColumn_fresh[of fst cols "[]" snd] by (simp add: setColumns_def)

lemma collect_rows:
  assumes "distinct (map f [0..<getRowCount t])"
  shows "fold (\<lambda>i columns. case getRow t i of
                              Some r \<Rightarrow> setColumn (f i) r columns
                            | None \<Rightarrow> columns) [0..<getRowCount t] [] =
         map (\<lambda>i. (f i, rowAt t i)) [0..<getRowCount t]"
proof -
  have "fold (\<lambda>i columns. case getRow t i of
                              Some r \<Rightarrow> setColumn (f i) r columns
                            | None \<Rightarrow> columns) [0..<getRowCount t] [] =
        fold (\<lambda>i columns. setColumn (f i) (rowAt t i) columns) [0..<getRowCount t] []"
    by (rule fold_cong) (auto simp: getRow_def)
  also have "\<dots> = map (\<lambda>i. (f i, rowAt t i)) [0..<getRowCount t]"
    using fold_setColumn_fresh[OF assms, of "[]" "rowAt t"] by simp
  finally show ?thesis .
qed

lemma distinct_index_names: "distinct (map string_of_nat [0..<n])"
  by (simp add: distinct_map inj_on_def string_of_nat_inj)

lemma invert_regular:
  assumes "''columnNames'' \<notin> set (getColumnNames t)"
  shows "InvertModifier_modify t =
     map (\<lambda>i. (string_of_nat i, rowAt t i)) [0..<getRowCount t] @
       [(''columnNames'', map CStr (getColumnNames t))]"
proof -
  let ?cols = "map (\<lambda>i. (string_of_nat i, rowAt t i)) [0..<getRowCount t]"
  have no: "\<not> hasColumns t [''columnNames'']" using assms by (simp add: hasColumns_def)
  have fresh: "''columnNames'' \<notin> fst ` set ?cols"
  proof
    assume "''columnNames'' \<in> fst ` set ?cols"
    then obtain i where "string_of_nat i = ''columnNames''" by auto
    with columnNames_not_index show False by blast
  qed
  have keys: "map fst ?cols = map string_of_nat [0..<getRowCount t]" by (simp add: comp_def)
  have "distinct (map fst ?cols)" unfolding keys by (rule distinct_index_names)
  moreover have "''columnNames'' \<notin> set (map fst ?cols)"
  proof
    assume "''columnNames'' \<in> set (map fst ?cols)"
    then have "''columnNames'' \<in> fst ` set ?cols" by (simp only: set_map)
    with fresh show False ..
  qed
  ultimately have "distinct (map fst ?cols @ [''columnNames''])"
    by (rule distinct_snoc)
  then have d: "distinct (map fst (?cols @ [(''columnNames'', map CStr (getColumnNames t))]))"
    by simp
  show ?thesis
    unfolding InvertModifier_modify_def Let_def
    by (simp only: no if_False collect_rows[OF distinct_index_names] setColumn_fresh[OF fresh]
        properties_regular setColumns_fresh[OF d])
qed

lemma map_cellAt_upt: "map (\<lambda>i. cellAt c i) [0..<length c] = c"
  by (rule nth_equalityI) (simp_all add: cellAt_def)

lemma delete_last_column:
  "k \<notin> fst ` set xs \<Longrightarrow> filter (\<lambda>c. fst c \<notin> set [k]) (xs @ [(k, v)]) = xs"
  by (induction xs) auto

lemma invert_inverted:
  assumes wf: "wf_table t" and rows: "0 < getRowCount t \<or> t = []"
    and listed: "properties t = t"
  shows "InvertModifier_modify
           (map (\<lambda>i. (string_of_nat i, rowAt t i)) [0..<getRowCount t] @
             [(''columnNames'', map CStr (getColumnNames t))]) = t"
proof -
  let ?n = "getRowCount t"
  let ?names = "getColumnNames t"
  let ?cols = "map (\<lambda>i. (string_of_nat i, rowAt t i)) [0..<?n]"
  let ?U = "?cols @ [(''columnNames'', map CStr ?names)]"
  have fresh: "''columnNames'' \<notin> fst ` set ?cols"
  proof
    assume "''columnNames'' \<in> fst ` set ?cols"
    then obtain i where "string_of_nat i = ''columnNames''" by auto
    with columnNames_not_index show False by blast
  qed
  have has: "hasColumns ?U [''columnNames'']"
    by (simp add: hasColumns_def getColumnNames_def)
  have "map_of ?cols ''columnNames'' = None"
    using fresh by (simp add: map_of_eq_None_iff)
  then have col: "getColumn ?U ''columnNames'' = Some (map CStr ?names)"
    by (simp add: getColumn_def map_add_def)
  have names: "map cell_to_string (map CStr ?names) = ?names"
    by (simp add: comp_def)
  have del: "deleteColumns [''columnNames''] ?U = ?cols"
    unfolding deleteColumns_def by (rule delete_last_column[OF fresh])
  have count: "getRowCount ?cols = length t"
  proof (cases "t = []")
    case True
    then show ?thesis by simp
  next
    case False
    with rows have "0 < ?n" by simp
    then have "?cols \<noteq> []" by simp
    then show ?thesis by (intro getRowCount_uniform) auto
  qed
  have d: "distinct (map (nameAt ?names) [0..<getRowCount ?cols])"
  proof -
    have "map (nameAt ?names) [0..<length t] = ?names"
      by (rule nth_equalityI) (simp_all add: nameAt_def getColumnNames_def)
    then show ?thesis using wf by (simp add: count wf_table_def getColumnNames_def)
  qed
  have row: "(nameAt ?names k, rowAt ?cols k) = t ! k" if "k < length t" for k
  proof -
    have "rowAt ?cols k = map (\<lambda>i. cellAt (rowAt t i) k) [0..<?n]"
      by (simp add: rowAt_def comp_def)
    also have "\<dots> = map (\<lambda>i. cellAt (snd (t ! k)) i) [0..<?n]"
      using that by (simp add: cellAt_rowAt)
    also have "\<dots> = snd (t ! k)"
      using map_cellAt_upt[of "snd (t ! k)"] wf_table_nth[OF wf that] by simp
    finally show ?thesis
      using that by (simp add: nameAt_def getColumnNames_def prod_eq_iff)
  qed
  have all: "map (\<lambda>k. (nameAt ?names k, rowAt ?cols k)) [0..<length t] = t"
    by (rule nth_equalityI) (simp_all add: row)
  have "fold (\<lambda>i columns. case getRow ?cols i of
                              Some r \<Rightarrow> setColumn (nameAt ?names i) r columns
                            | None \<Rightarrow> columns) [0..<getRowCount ?cols] [] =
        map (\<lambda>k. (nameAt ?names k, rowAt ?cols k)) [0..<getRowCount ?cols]"
    by (rule collect_rows[OF d])
  also have "\<dots> = map (\<lambda>k. (nameAt ?names k, rowAt ?cols k)) [0..<length t]"
    by (simp only: count)
  also have "\<dots> = t" by (rule all)
  finally have collected: "fold (\<lambda>i columns. case getRow ?cols i of
                              Some r \<Rightarrow> setColumn (nameAt ?names i) r columns
                            | None \<Rightarrow> columns) [0..<getRowCount ?cols] [] = t" .
  have "distinct (map fst t)" using wf by (simp add: wf_table_def)
  then have setc: "setColumns t [] = t" by (rule setColumns_fresh)
  show ?thesis
    unfolding InvertModifier_modify_def Let_def
    by (simp only: has if_True col option.case names del collected listed setc)
qed

text \<open>
  Claim C2, as amended. For every table that has no column named \<open>columnNames\<close>, that
  has a row or has no column, and whose columns are in the order in which an object
  lists their names (array indices first, ascending), \<^verbatim>\<open>InvertModifier.modify\<close> applied
  twice gives the table back: the same column names in the same order, with the same
  cells.
\<close>

theorem C2_invert_twice:
  "wf_table t \<Longrightarrow> ''columnNames'' \<notin> set (getColumnNames t) \<Longrightarrow>
   0 < getRowCount t \<or> t = [] \<Longrightarrow> properties t = t \<Longrightarrow>
   InvertModifier_modify (InvertModifier_modify t) = t"
proof -
  assume wf: "wf_table t" and no: "''columnNames'' \<notin> set (getColumnNames t)"
    and rows: "0 < getRowCount t \<or> t = []" and listed: "properties t = t"
  show ?thesis
    unfolding invert_regular[OF no] by (rule invert_inverted[OF wf rows listed])
qed

theorem C2_invert_twice_witness:
  "wf_table [(''0'', [CStr ''a'', CStr ''b'', CUndef]), (''7'', [CNum 1, CNaN, CNum 3]),
             (''k'', [CBool True, CNum 2, CStr []])] \<and>
   ''columnNames'' \<notin>
     set (getColumnNames
            [(''0'', [CStr ''a'', CStr ''b'', CUndef]), (''7'', [CNum 1, CNaN, CNum 3]),
             (''k'', [CBool True, CNum 2, CStr []])]) \<and>
   0 < getRowCount [(''0'', [CStr ''a'', CStr ''b'', CUndef]), (''7'', [CNum 1, CNaN, CNum 3]),
                    (''k'', [CBool True, CNum 2, CStr []])] \<and>
   properties [(''0'', [CStr ''a'', CStr ''b'', CUndef]), (''7'', [CNum 1, CNaN, CNum 3]),
               (''k'', [CBool True, CNum 2, CStr []])] =
     [(''0'', [CStr ''a'', CStr ''b'', CUndef]), (''7'', [CNum 1, CNaN, CNum 3]),
      (''k'', [CBool True, CNum 2, CStr []])] \<and>
   InvertModifier_modify
     [(''0'', [CStr ''a'', CStr ''b'', CUndef]), (''7'', [CNum 1, CNaN, CNum 3]),
      (''k'', [CBool True, CNum 2, CStr []])] =
     [(''0'', [CStr ''a'', CNum 1, CBool True]), (''1'', [CStr ''b'', CNaN, CNum 2]),
      (''2'', [CUndef, CNum 3, CStr []]),
      (''columnNames'', [CStr ''0'', CStr ''7'', CStr ''k''])] \<and>
   InvertModifier_modify
     (InvertModifier_modify
        [(''0'', [CStr ''a'', CStr ''b'', CUndef]), (''7'', [CNum 1, CNaN, CNum 3]),
         (''k'', [CBool True, CNum 2, CStr []])]) =
     [(''0'', [CStr ''a'', CStr ''b'', CUndef]), (''7'', [CNum 1, CNaN, CNum 3]),
      (''k'', [CBool True, CNum 2, CStr []])] \<and>
   InvertModifier_modify (InvertModifier_modify []) = []"
proof -
  let ?t = "[(''0'', [CStr ''a'', CStr ''b'', CUndef]), (''7'', [CNum 1, CNaN, CNum 3]),
             (''k'', [CBool True, CNum 2, CStr []])]"
  have wf: "wf_table ?t" by (simp add: wf_table_def getRowCount_def)
  have no: "''columnNames'' \<notin> set (getColumnNames ?t)" by (simp add: getColumnNames_def)
  have pos: "0 < getRowCount ?t" by (simp add: getRowCount_def)
  have listed: "properties ?t = ?t" by code_simp
  have once: "InvertModifier_modify ?t =
     [(''0'', [CStr ''a'', CNum 1, CBool True]), (''1'', [CStr ''b'', CNaN, CNum 2]),
      (''2'', [CUndef, CNum 3, CStr []]),
      (''columnNames'', [CStr ''0'', CStr ''7'', CStr ''k''])]" by code_simp
  have wf0: "wf_table []" by (simp add: wf_table_def)
  have no0: "''columnNames'' \<notin> set (getColumnNames [])" by (simp add: getColumnNames_def)
  have l0: "properties ([] :: table) = []" by (simp add: properties_def)
  have twice: "InvertModifier_modify (InvertModifier_modify ?t) = ?t"
    by (rule C2_invert_twice[OF wf no disjI1[OF pos] listed])
  have empty: "InvertModifier_modify (InvertModifier_modify []) = []"
    by (rule C2_invert_twice[OF wf0 no0 disjI2[OF refl] l0])
  show ?thesis by (intro conjI wf no pos listed once twice empty)
qed

text \<open>
  Claim C2 as stated fails on a table that has a column and no row: its inverted form
  holds only the column \<open>columnNames\<close>, and inverting that gives the table without
  columns. It also fails on the table whose columns are named \<open>b\<close> and \<open>0\<close>, in that
  order: the object that collects the columns lists the array index \<open>0\<close> first, so the
  columns come back in the other order.
\<close>

theorem C2_counterexample:
  "wf_table [(''a'', [])] \<and>
   ''columnNames'' \<notin> set (getColumnNames [(''a'', [])]) \<and>
   InvertModifier_modify [(''a'', [])] = [(''columnNames'', [CStr ''a''])] \<and>
   InvertModifier_modify (InvertModifier_modify [(''a'', [])]) = [] \<and>
   getColumnNames (InvertModifier_modify (InvertModifier_modify [(''a'', [])])) \<noteq>
     getColumnNames [(''a'', [])] \<and>
   wf_table [(''b'', [CNum 1]), (''0'', [CNum 2])] \<and>
   ''columnNames'' \<notin> set (getColumnNames [(''b'', [CNum 1]), (''0'', [CNum 2])]) \<and>
   InvertModifier_modify [(''b'', [CNum 1]), (''0'', [CNum 2])] =
     [(''0'', [CNum 1, CNum 2]), (''columnNames'', [CStr ''b'', CStr ''0''])] \<and>
   InvertModifier_modify (InvertModifier_modify [(''b'', [CNum 1]), (''0'', [CNum 2])]) =
     [(''0'', [CNum 2]), (''b'', [CNum 1])] \<and>
   getColumnNames
       (InvertModifier_modify (InvertModifier_modify [(''b'', [CNum 1]), (''0'', [CNum 2])])) \<noteq>
     getColumnNames [(''b'', [CNum 1]), (''0'', [CNum 2])]"
  by code_simp

end
